theory Spec2Isabelle
  imports Complex_Main
begin

section \<open>Bank queue simulator: constants and outcomes\<close>

text \<open>
  The embedding follows \<^verbatim>\<open>coc-project-bank-queue.c\<close>. C's \<^verbatim>\<open>int\<close> is modelled as
  \<^typ>\<open>int\<close>; an operation whose result is not representable in 32 bits is undefined
  behaviour in C and is an error outcome here. Everything the program takes from its
  environment (the values of \<^verbatim>\<open>rand()\<close>, the clock, whether an allocation succeeds) is a
  field of the \<open>world\<close> record that every effectful function passes on.
\<close>

definition SIMULATION_MINUTES :: int where "SIMULATION_MINUTES = 480"
definition MIN_SERVICE_TIME :: int where "MIN_SERVICE_TIME = 2"
definition MAX_SERVICE_TIME :: int where "MAX_SERVICE_TIME = 3"
definition INITIAL_STORAGE_CAPACITY :: int where "INITIAL_STORAGE_CAPACITY = 100"
definition INT_MAX :: int where "INT_MAX = 2147483647"
definition INT_MIN :: int where "INT_MIN = - 2147483648"
definition UINT_MAX :: int where "UINT_MAX = 4294967295"

datatype error =
    Exit_failure      \<comment> \<open>\<^verbatim>\<open>perror(...); exit(EXIT_FAILURE)\<close>\<close>
  | Signed_overflow   \<comment> \<open>an \<^verbatim>\<open>int\<close> result outside INT_MIN..INT_MAX\<close>
  | Invalid_pointer   \<comment> \<open>a read or write through NULL or a freed pointer\<close>
  | Out_of_bounds     \<comment> \<open>an array access outside the allocated cells\<close>

definition bind_err :: "'e + 'a \<Rightarrow> ('a \<Rightarrow> 'e + 'b) \<Rightarrow> 'e + 'b" where
  "bind_err m f = (case m of Inl e \<Rightarrow> Inl e | Inr x \<Rightarrow> f x)"

definition c_int :: "int \<Rightarrow> error + int" where
  "c_int x = (if INT_MIN \<le> x \<and> x \<le> INT_MAX then Inr x else Inl Signed_overflow)"

section \<open>Struct definitions\<close>

type_synonym addr = nat

record Customer =
  arrival_minute :: int
  c_next :: "addr option"   \<comment> \<open>\<^verbatim>\<open>struct Customer *next\<close>; NULL is \<open>None\<close>\<close>

record Queue =
  front :: "addr option"
  rear :: "addr option"
  customer_count :: int

record Teller =
  is_busy :: int
  remaining_service_time :: int

text \<open>
  The wait-time array is the list of its allocated cells; a cell that was never written
  is \<open>None\<close>.
\<close>

record WaitTimeStorage =
  wait_times :: "int option list"
  count :: int
  capacity :: int

text \<open>
  The double arithmetic of the C implementation and \<^verbatim>\<open>RAND_MAX\<close>. Neither is code of
  this repository, so both are parameters: every theorem below holds for any choice.
\<close>

record 'd platform =
  fp_exp :: "'d \<Rightarrow> 'd"
  fp_neg :: "'d \<Rightarrow> 'd"
  fp_one :: 'd
  fp_of_int :: "int \<Rightarrow> 'd"
  fp_div :: "'d \<Rightarrow> 'd \<Rightarrow> 'd"
  fp_mul :: "'d \<Rightarrow> 'd \<Rightarrow> 'd"
  fp_gt :: "'d \<Rightarrow> 'd \<Rightarrow> bool"
  fp_le :: "'d \<Rightarrow> 'd \<Rightarrow> bool"
  RAND_MAX :: int

text \<open>
  The process state outside the simulation's own variables. \<open>rand_gen seed i\<close> is the
  value of the \<open>i\<close>-th call of \<^verbatim>\<open>rand()\<close> after \<^verbatim>\<open>srand(seed)\<close>; \<open>alloc_ok n\<close> tells
  whether the \<open>n\<close>-th request to malloc, calloc or realloc succeeds; \<open>clock\<close> is what
  \<^verbatim>\<open>time(NULL)\<close> returns, a \<^verbatim>\<open>time_t\<close>. \<open>srand_log\<close> lists the arguments of the calls of
  \<^verbatim>\<open>srand\<close> made so far, oldest first. Customer nodes live in \<open>heap\<close>; a fresh node gets the
  address \<open>next_addr\<close>, and addresses are not reused.
\<close>

record world =
  heap :: "addr \<Rightarrow> Customer option"
  next_addr :: addr
  rand_gen :: "nat \<Rightarrow> nat \<Rightarrow> nat"
  rand_seed :: nat
  rand_pos :: nat
  srand_log :: "nat list"
  alloc_ok :: "nat \<Rightarrow> bool"
  alloc_pos :: nat
  clock :: int
  stderr :: "string list"
  stdout :: "string list"

definition rand :: "world \<Rightarrow> nat \<times> world" where
  "rand w = (rand_gen w (rand_seed w) (rand_pos w), w\<lparr>rand_pos := rand_pos w + 1\<rparr>)"

text \<open>
  \<^verbatim>\<open>srand\<close> takes an \<^verbatim>\<open>unsigned int\<close>: an argument of another integer type is converted,
  that is reduced modulo \<open>UINT_MAX + 1\<close>.
\<close>

definition to_unsigned :: "int \<Rightarrow> nat" where
  "to_unsigned x = nat (x mod (UINT_MAX + 1))"

definition srand :: "nat \<Rightarrow> world \<Rightarrow> world" where
  "srand seed w = w\<lparr>rand_seed := seed, rand_pos := 0, srand_log := srand_log w @ [seed]\<rparr>"

definition alloc_request :: "world \<Rightarrow> bool \<times> world" where
  "alloc_request w = (alloc_ok w (alloc_pos w), w\<lparr>alloc_pos := alloc_pos w + 1\<rparr>)"

definition perror :: "string \<Rightarrow> world \<Rightarrow> world" where
  "perror msg w = w\<lparr>stderr := stderr w @ [msg]\<rparr>"

definition printf :: "string \<Rightarrow> world \<Rightarrow> world" where
  "printf msg w = w\<lparr>stdout := stdout w @ [msg]\<rparr>"

text \<open>\<^verbatim>\<open>malloc(sizeof(Customer))\<close>: NULL, or the address of a fresh node.\<close>

definition malloc_Customer :: "world \<Rightarrow> addr option \<times> world" where
  "malloc_Customer w =
     (case alloc_request w of
        (ok, w1) \<Rightarrow>
          if ok then (Some (next_addr w1), w1\<lparr>next_addr := next_addr w1 + 1\<rparr>)
          else (None, w1))"

definition free_Customer :: "addr \<Rightarrow> world \<Rightarrow> world" where
  "free_Customer a w = w\<lparr>heap := (heap w)(a := None)\<rparr>"

section \<open>Queue management (linked list)\<close>

definition create_queue :: "world \<Rightarrow> error + (Queue \<times> world)" where
  "create_queue w =
     (case alloc_request w of
        (ok, w1) \<Rightarrow>
          if \<not> ok then Inl Exit_failure
          else Inr (\<lparr>front = None, rear = None, customer_count = 0\<rparr>, w1))"

definition is_empty :: "Queue \<Rightarrow> bool" where
  "is_empty q = (front q = None)"

definition enqueue :: "Queue \<Rightarrow> int \<Rightarrow> world \<Rightarrow> error + (Queue \<times> world)" where
  "enqueue q arrival w =
     (case malloc_Customer w of
        (None, w1) \<Rightarrow> Inl Exit_failure
      | (Some new_customer, w1) \<Rightarrow>
          let w2 = w1\<lparr>heap := (heap w1)(new_customer \<mapsto>
                        \<lparr>arrival_minute = arrival, c_next = None\<rparr>)\<rparr>
          in bind_err
               (if is_empty q
                then Inr (q\<lparr>front := Some new_customer, rear := Some new_customer\<rparr>, w2)
                else (case rear q of
                        None \<Rightarrow> Inl Invalid_pointer
                      | Some r \<Rightarrow>
                          (case heap w2 r of
                             None \<Rightarrow> Inl Invalid_pointer
                           | Some c \<Rightarrow>
                               Inr (q\<lparr>rear := Some new_customer\<rparr>,
                                    w2\<lparr>heap := (heap w2)(r \<mapsto> c\<lparr>c_next := Some new_customer\<rparr>)\<rparr>))))
               (\<lambda>(q1, w3).
                  bind_err (c_int (customer_count q1 + 1))
                    (\<lambda>n. Inr (q1\<lparr>customer_count := n\<rparr>, w3))))"

definition dequeue :: "Queue \<Rightarrow> world \<Rightarrow> error + (addr option \<times> Queue)" where
  "dequeue q w =
     (if is_empty q then Inr (None, q)
      else (case front q of
              None \<Rightarrow> Inl Invalid_pointer
            | Some served_customer \<Rightarrow>
                (case heap w served_customer of
                   None \<Rightarrow> Inl Invalid_pointer
                 | Some c \<Rightarrow>
                     let q1 = q\<lparr>front := c_next c\<rparr>;
                         q2 = (if front q1 = None then q1\<lparr>rear := None\<rparr> else q1)
                     in bind_err (c_int (customer_count q2 - 1))
                          (\<lambda>n. Inr (Some served_customer, q2\<lparr>customer_count := n\<rparr>)))))"

section \<open>Dynamic array of wait times\<close>

definition create_storage :: "world \<Rightarrow> error + (WaitTimeStorage \<times> world)" where
  "create_storage w =
     (case alloc_request w of
        (ok1, w1) \<Rightarrow>
          if \<not> ok1 then Inl Exit_failure
          else (case alloc_request w1 of
                  (ok2, w2) \<Rightarrow>
                    if \<not> ok2 then Inl Exit_failure
                    else Inr (\<lparr>wait_times = replicate (nat INITIAL_STORAGE_CAPACITY) None,
                               count = 0,
                               capacity = INITIAL_STORAGE_CAPACITY\<rparr>, w2)))"

text \<open>
  \<^verbatim>\<open>realloc(p, n * sizeof(int))\<close> on success: the first cells are kept, new cells are
  unwritten.
\<close>

definition realloc_cells :: "int option list \<Rightarrow> int \<Rightarrow> int option list" where
  "realloc_cells cells n = take (nat n) cells @ replicate (nat n - length cells) None"

text \<open>Step 2 of \<^verbatim>\<open>add_wait_time\<close>: \<^verbatim>\<open>wait_times[count] = wait_time; count++\<close>.\<close>

definition store_wait_time ::
  "WaitTimeStorage \<Rightarrow> int \<Rightarrow> world \<Rightarrow> error + (WaitTimeStorage \<times> world)" where
  "store_wait_time storage wait_time w =
     (if 0 \<le> count storage \<and> nat (count storage) < length (wait_times storage)
      then bind_err (c_int (count storage + 1))
             (\<lambda>n. Inr (storage\<lparr>wait_times := (wait_times storage)[nat (count storage) := Some wait_time],
                              count := n\<rparr>, w))
      else Inl Out_of_bounds)"

definition add_wait_time ::
  "WaitTimeStorage \<Rightarrow> int \<Rightarrow> world \<Rightarrow> error + (WaitTimeStorage \<times> world)" where
  "add_wait_time storage wait_time w =
     (if count storage = capacity storage
      then bind_err (c_int (capacity storage * 2))
             (\<lambda>new_capacity.
                case alloc_request w of
                  (ok, w1) \<Rightarrow>
                    if \<not> ok
                    then Inr (storage,
                              perror ''Failed to re-allocate memory for wait time array'' w1)
                    else store_wait_time
                           (storage\<lparr>wait_times := realloc_cells (wait_times storage) new_capacity,
                                     capacity := new_capacity\<rparr>)
                           wait_time w1)
      else store_wait_time storage wait_time w)"

section \<open>Simulation and math functions\<close>

text \<open>
  The do-while loop of \<^verbatim>\<open>get_poisson_random\<close>, entered with the current \<open>p\<close> and \<open>k\<close>.
  It ends at the latest when \<^verbatim>\<open>k++\<close> overflows.
\<close>

function poisson_loop :: "'d platform \<Rightarrow> 'd \<Rightarrow> 'd \<Rightarrow> int \<Rightarrow> world \<Rightarrow> error + (int \<times> world)" where
  "poisson_loop fp L p k w =
     (case c_int (k + 1) of
        Inl e \<Rightarrow> Inl e
      | Inr k1 \<Rightarrow>
          (case rand w of
             (r, w1) \<Rightarrow>
               let u = fp_div fp (fp_of_int fp (int r)) (fp_of_int fp (RAND_MAX fp));
                   p1 = fp_mul fp p u
               in if fp_gt fp p1 L then poisson_loop fp L p1 k1 w1
                  else Inr (k1 - 1, w1)))"
  by pat_completeness auto
termination
  by (relation "measure (\<lambda>(fp, L, p, k, w). nat (INT_MAX + 1 - k))")
     (auto simp: c_int_def INT_MAX_def split: if_splits)

definition get_poisson_random :: "'d platform \<Rightarrow> 'd \<Rightarrow> world \<Rightarrow> error + (int \<times> world)" where
  "get_poisson_random fp lambda w =
     (let L = fp_exp fp (fp_neg fp lambda) in poisson_loop fp L (fp_one fp) 0 w)"

definition get_service_time :: "world \<Rightarrow> int \<times> world" where
  "get_service_time w =
     (case rand w of
        (r, w1) \<Rightarrow> (int r mod (MAX_SERVICE_TIME - MIN_SERVICE_TIME + 1) + MIN_SERVICE_TIME, w1))"

section \<open>Data analysis: the mode\<close>

text \<open>
  \<^verbatim>\<open>get_mode(data, n)\<close> reads the cells \<open>data[0..n-1]\<close>; the model takes the list of
  these cells, so \<open>n\<close> is its length.
\<close>

fun max_val_loop :: "int list \<Rightarrow> int \<Rightarrow> int" where
  "max_val_loop [] max_val = max_val"
| "max_val_loop (x # xs) max_val = max_val_loop xs (if x > max_val then x else max_val)"

text \<open>\<^verbatim>\<open>frequency[data[i]]++\<close> for every cell of the data.\<close>

fun populate :: "int list \<Rightarrow> int list \<Rightarrow> error + int list" where
  "populate [] frequency = Inr frequency"
| "populate (x # xs) frequency =
     (if 0 \<le> x \<and> nat x < length frequency
      then bind_err (c_int (frequency ! nat x + 1))
             (\<lambda>v. populate xs (frequency[nat x := v]))
      else Inl Out_of_bounds)"

text \<open>
  The scan for the highest frequency, at index \<open>i\<close> with the cells from \<open>i\<close> on still to
  read.
\<close>

fun scan_mode :: "int list \<Rightarrow> int \<Rightarrow> int \<Rightarrow> int \<Rightarrow> int" where
  "scan_mode [] i mode max_freq = mode"
| "scan_mode (f # fs) i mode max_freq =
     (if f > max_freq then scan_mode fs (i + 1) i f
      else scan_mode fs (i + 1) mode max_freq)"

definition get_mode :: "int list \<Rightarrow> world \<Rightarrow> error + (int \<times> world)" where
  "get_mode data w =
     (if length data = 0 then Inr (0, w)
      else
        let max_val = max_val_loop data 0 in
        bind_err (if max_val < 1 then Inr 1 else c_int (max_val + 1))
          (\<lambda>freq_array_size.
             case alloc_request w of
               (ok, w1) \<Rightarrow>
                 if \<not> ok
                 then Inr (- 1, perror ''Failed to allocate memory for mode calculation'' w1)
                 else bind_err (populate data (replicate (nat freq_array_size) 0))
                        (\<lambda>frequency. Inr (scan_mode frequency 0 0 0, w1))))"

section \<open>The main simulation function\<close>

text \<open>The simulation's own variables: the queue, the storage, the tellers and the counter.\<close>

record sim =
  bank_queue :: Queue
  storage :: WaitTimeStorage
  tellers :: "Teller list"
  total_arrivals :: int

text \<open>Step 1 of a minute, for one teller and for the array of tellers in index order.\<close>

definition tick_teller :: "Teller \<Rightarrow> error + Teller" where
  "tick_teller t =
     (if is_busy t \<noteq> 0
      then bind_err (c_int (remaining_service_time t - 1))
             (\<lambda>r. let t1 = t\<lparr>remaining_service_time := r\<rparr>
                   in Inr (if remaining_service_time t1 = 0 then t1\<lparr>is_busy := 0\<rparr> else t1))
      else Inr t)"

fun tick_tellers :: "Teller list \<Rightarrow> error + Teller list" where
  "tick_tellers [] = Inr []"
| "tick_tellers (t # ts) =
     bind_err (tick_teller t)
       (\<lambda>t1. bind_err (tick_tellers ts) (\<lambda>ts1. Inr (t1 # ts1)))"

text \<open>Step 2: \<open>n\<close> calls of \<^verbatim>\<open>enqueue(bank_queue, current_minute)\<close>.\<close>

fun enqueue_arrivals :: "nat \<Rightarrow> Queue \<Rightarrow> int \<Rightarrow> world \<Rightarrow> error + (Queue \<times> world)" where
  "enqueue_arrivals 0 q current_minute w = Inr (q, w)"
| "enqueue_arrivals (Suc n) q current_minute w =
     bind_err (enqueue q current_minute w)
       (\<lambda>(q1, w1). enqueue_arrivals n q1 current_minute w1)"

text \<open>Step 3 for one teller: the body of the assignment loop.\<close>

definition assign_teller ::
  "int \<Rightarrow> Teller \<Rightarrow> Queue \<Rightarrow> WaitTimeStorage \<Rightarrow> world \<Rightarrow>
     error + (Teller \<times> Queue \<times> WaitTimeStorage \<times> world)" where
  "assign_teller current_minute t q st w =
     (if is_busy t = 0 \<and> \<not> is_empty q
      then bind_err (dequeue q w)
             (\<lambda>(p, q1).
                case p of
                  None \<Rightarrow> Inl Invalid_pointer
                | Some served_customer \<Rightarrow>
                    (case heap w served_customer of
                       None \<Rightarrow> Inl Invalid_pointer
                     | Some c \<Rightarrow>
                         bind_err (c_int (current_minute - arrival_minute c))
                           (\<lambda>wait_time.
                              bind_err (add_wait_time st wait_time w)
                                (\<lambda>(st1, w1).
                                   case get_service_time w1 of
                                     (service, w2) \<Rightarrow>
                                       Inr (t\<lparr>is_busy := 1, remaining_service_time := service\<rparr>,
                                            q1, st1, free_Customer served_customer w2)))))
      else Inr (t, q, st, w))"

fun assign_tellers ::
  "int \<Rightarrow> Teller list \<Rightarrow> Queue \<Rightarrow> WaitTimeStorage \<Rightarrow> world \<Rightarrow>
     error + (Teller list \<times> Queue \<times> WaitTimeStorage \<times> world)" where
  "assign_tellers current_minute [] q st w = Inr ([], q, st, w)"
| "assign_tellers current_minute (t # ts) q st w =
     bind_err (assign_teller current_minute t q st w)
       (\<lambda>(t1, q1, st1, w1).
          bind_err (assign_tellers current_minute ts q1 st1 w1)
            (\<lambda>(ts1, q2, st2, w2). Inr (t1 # ts1, q2, st2, w2)))"

text \<open>One iteration of the main loop: the three steps in the order of the source.\<close>

definition sim_minute :: "'d platform \<Rightarrow> 'd \<Rightarrow> int \<Rightarrow> sim \<Rightarrow> world \<Rightarrow> error + (sim \<times> world)" where
  "sim_minute fp lambda current_minute s w =
     bind_err (tick_tellers (tellers s))
       (\<lambda>ts1.
          bind_err (get_poisson_random fp lambda w)
            (\<lambda>(new_arrivals, w1).
               bind_err (c_int (total_arrivals s + new_arrivals))
                 (\<lambda>total.
                    bind_err (enqueue_arrivals (nat new_arrivals) (bank_queue s) current_minute w1)
                      (\<lambda>(q1, w2).
                         bind_err (assign_tellers current_minute ts1 q1 (storage s) w2)
                           (\<lambda>(ts2, q2, st2, w3).
                              Inr (\<lparr>bank_queue = q2, storage = st2, tellers = ts2,
                                    total_arrivals = total\<rparr>, w3))))))"

function sim_loop :: "'d platform \<Rightarrow> 'd \<Rightarrow> int \<Rightarrow> sim \<Rightarrow> world \<Rightarrow> error + (sim \<times> world)" where
  "sim_loop fp lambda current_minute s w =
     (if current_minute < SIMULATION_MINUTES
      then bind_err (sim_minute fp lambda current_minute s w)
             (\<lambda>(s1, w1). sim_loop fp lambda (current_minute + 1) s1 w1)
      else Inr (s, w))"
  by pat_completeness auto
termination
  by (relation "measure (\<lambda>(fp, lambda, m, s, w). nat (SIMULATION_MINUTES - m))") auto

text \<open>
  \<^verbatim>\<open>run_simulation\<close> up to the end of its loop. The result holds the values the report
  then prints: \<open>total_arrivals\<close>, \<open>count (storage s)\<close> and \<open>customer_count (bank_queue s)\<close>.
  The formatted lines of the report and the final \<^verbatim>\<open>free\<close> calls are left out.
\<close>

definition run_simulation :: "'d platform \<Rightarrow> 'd \<Rightarrow> int \<Rightarrow> world \<Rightarrow> error + (sim \<times> world)" where
  "run_simulation fp lambda num_tellers w =
     (let w0 = printf ''--- Starting 8-Hour (480 Minute) Simulation ---'' w;
          w1 = srand (to_unsigned (clock w0)) w0
      in bind_err (create_queue w1)
           (\<lambda>(q, w2).
              bind_err (create_storage w2)
                (\<lambda>(st, w3).
                   case alloc_request w3 of
                     (ok, w4) \<Rightarrow>
                       if \<not> ok then Inl Exit_failure
                       else
                         let ts = replicate (nat num_tellers)
                                    \<lparr>is_busy = 0, remaining_service_time = 0\<rparr>
                         in sim_loop fp lambda 0
                              \<lparr>bank_queue = q, storage = st, tellers = ts, total_arrivals = 0\<rparr>
                              w4)))"

section \<open>The main function\<close>

text \<open>
  The two \<^verbatim>\<open>scanf\<close> calls are the operator's input: \<open>None\<close> when the conversion fails,
  otherwise the value read. The result is the exit status.
\<close>

definition main ::
  "'d platform \<Rightarrow> 'd option \<Rightarrow> int option \<Rightarrow> world \<Rightarrow> error + (int \<times> world)" where
  "main fp scanf_lambda scanf_tellers w =
     (let w0 = printf ''--- Welcome to the Bank Queue Simulator ---'' w;
          w1 = printf ''Enter the average number of customers arriving *per minute* (lambda): '' w0
      in case scanf_lambda of
           None \<Rightarrow> Inr (1, printf ''Invalid input. Please enter a positive number.'' w1)
         | Some lambda \<Rightarrow>
             if fp_le fp lambda (fp_of_int fp 0)
             then Inr (1, printf ''Invalid input. Please enter a positive number.'' w1)
             else
               let w2 = printf ''Enter the number of tellers working: '' w1
               in (case scanf_tellers of
                     None \<Rightarrow>
                       Inr (1, printf ''Invalid input. Please enter a positive number of tellers.'' w2)
                   | Some num_tellers \<Rightarrow>
                       if num_tellers \<le> 0
                       then Inr (1, printf ''Invalid input. Please enter a positive number of tellers.'' w2)
                       else bind_err (run_simulation fp lambda num_tellers w2)
                              (\<lambda>(s, w3). Inr (0, w3))))"

section \<open>Specification vocabulary\<close>

text \<open>The storage is well formed, and the values recorded so far.\<close>

definition storage_ok :: "WaitTimeStorage \<Rightarrow> bool" where
  "storage_ok st =
     (0 \<le> count st \<and> count st \<le> capacity st \<and> 0 < capacity st \<and> capacity st \<le> INT_MAX \<and>
      length (wait_times st) = nat (capacity st))"

definition recorded :: "WaitTimeStorage \<Rightarrow> int option list" where
  "recorded st = take (nat (count st)) (wait_times st)"

text \<open>The teller invariant of the data model.\<close>

definition teller_inv :: "Teller \<Rightarrow> bool" where
  "teller_inv t = (is_busy t = 0 \<longrightarrow> remaining_service_time t = 0)"

text \<open>
  The linked list in the heap: \<open>chain h p as\<close> holds when following \<open>c_next\<close> from \<open>p\<close>
  visits exactly the nodes \<open>as\<close> and then reaches NULL. \<open>queue_inv w q as\<close> says that
  the queue \<open>q\<close> holds the nodes \<open>as\<close>, front first.
\<close>

fun chain :: "(addr \<Rightarrow> Customer option) \<Rightarrow> addr option \<Rightarrow> addr list \<Rightarrow> bool" where
  "chain h p [] = (p = None)"
| "chain h p (a # as) =
     (p = Some a \<and> (case h a of None \<Rightarrow> False | Some c \<Rightarrow> chain h (c_next c) as))"

definition arrival_of :: "world \<Rightarrow> addr \<Rightarrow> int" where
  "arrival_of w a = (case heap w a of None \<Rightarrow> 0 | Some c \<Rightarrow> arrival_minute c)"

definition queue_inv :: "world \<Rightarrow> Queue \<Rightarrow> addr list \<Rightarrow> bool" where
  "queue_inv w q as =
     (chain (heap w) (front q) as \<and> distinct as \<and>
      rear q = (if as = [] then None else Some (last as)) \<and>
      customer_count q = int (length as) \<and> customer_count q \<le> INT_MAX \<and>
      (\<forall>a\<in>set as. a < next_addr w))"

text \<open>
  A caller's sequence of queue operations. A dequeued customer is read and freed, as the
  simulation does; the result lists the arrival minutes of the dequeued customers in the
  order of their removal.
\<close>

datatype queue_op = Enqueue int | Dequeue

fun run_queue_ops :: "queue_op list \<Rightarrow> Queue \<Rightarrow> world \<Rightarrow> error + (int list \<times> Queue \<times> world)" where
  "run_queue_ops [] q w = Inr ([], q, w)"
| "run_queue_ops (Enqueue v # ops) q w =
     bind_err (enqueue q v w) (\<lambda>(q1, w1). run_queue_ops ops q1 w1)"
| "run_queue_ops (Dequeue # ops) q w =
     bind_err (dequeue q w)
       (\<lambda>(p, q1).
          case p of
            None \<Rightarrow> run_queue_ops ops q1 w
          | Some served_customer \<Rightarrow>
              (case heap w served_customer of
                 None \<Rightarrow> Inl Invalid_pointer
               | Some c \<Rightarrow>
                   bind_err (run_queue_ops ops q1 (free_Customer served_customer w))
                     (\<lambda>(served, q2, w2). Inr (arrival_minute c # served, q2, w2))))"

fun enqueued :: "queue_op list \<Rightarrow> int list" where
  "enqueued [] = []"
| "enqueued (Enqueue v # ops) = v # enqueued ops"
| "enqueued (Dequeue # ops) = enqueued ops"

text \<open>
  The process at its start: nothing allocated, nothing printed. The generator, the
  allocator's answers and the clock are the environment's.
\<close>

definition initial_world :: "(nat \<Rightarrow> nat \<Rightarrow> nat) \<Rightarrow> (nat \<Rightarrow> bool) \<Rightarrow> int \<Rightarrow> world" where
  "initial_world gen ok now =
     \<lparr>heap = Map.empty, next_addr = 0, rand_gen = gen, rand_seed = 1, rand_pos = 0,
      srand_log = [], alloc_ok = ok, alloc_pos = 0, clock = now, stderr = [], stdout = []\<rparr>"

text \<open>A storage of capacity 2 that is full.\<close>

definition full_storage :: WaitTimeStorage where
  "full_storage = \<lparr>wait_times = [Some 0, Some 4], count = 2, capacity = 2\<rparr>"

text \<open>Example inputs for the queue.\<close>

definition fifo_ops :: "queue_op list" where
  "fifo_ops = [Enqueue 3, Enqueue 5, Dequeue, Enqueue 7, Dequeue, Dequeue, Dequeue, Enqueue 9]"

definition empty_queue :: Queue where
  "empty_queue = \<lparr>front = None, rear = None, customer_count = 0\<rparr>"

definition two_world :: world where
  "two_world =
     (initial_world (\<lambda>s i. 0) (\<lambda>n. True) 0)
       \<lparr>heap := [0 \<mapsto> \<lparr>arrival_minute = 3, c_next = Some 1\<rparr>,
                 1 \<mapsto> \<lparr>arrival_minute = 5, c_next = None\<rparr>],
        next_addr := 2\<rparr>"

definition two_queue :: Queue where
  "two_queue = \<lparr>front = Some 0, rear = Some 1, customer_count = 2\<rparr>"

text \<open>
  The invariants of the simulation loop. \<open>drops ws w\<close> counts the messages written to the
  error stream since the world \<open>ws\<close>. \<open>qs_inv ws b arrived q st w\<close>: the queue is a well-formed
  list whose customers arrived at minutes 0..b, the storage is well formed and its recorded
  values lie in 0..b, and the customers that arrived are those served and recorded, those
  still queued and those whose record was dropped. \<open>sim_inv ws m s w\<close> is the invariant at
  the head of the loop for minute \<open>m\<close>; \<open>env_inv ws w\<close> says that only the cursors, the heap and
  the error stream have changed since \<open>ws\<close>.
\<close>

definition drops :: "world \<Rightarrow> world \<Rightarrow> int" where
  "drops w0 w = int (length (stderr w)) - int (length (stderr w0))"

definition qs_inv :: "world \<Rightarrow> int \<Rightarrow> int \<Rightarrow> Queue \<Rightarrow> WaitTimeStorage \<Rightarrow> world \<Rightarrow> bool" where
  "qs_inv w0 bound arrived q st w =
     ((\<exists>as. queue_inv w q as \<and> (\<forall>a\<in>set as. 0 \<le> arrival_of w a \<and> arrival_of w a \<le> bound)) \<and>
      storage_ok st \<and>
      (\<forall>e\<in>set (recorded st). \<exists>v. e = Some v \<and> 0 \<le> v \<and> v \<le> bound) \<and>
      arrived = count st + customer_count q + drops w0 w)"

definition sim_inv :: "world \<Rightarrow> int \<Rightarrow> sim \<Rightarrow> world \<Rightarrow> bool" where
  "sim_inv w0 m s w =
     (qs_inv w0 (m - 1) (total_arrivals s) (bank_queue s) (storage s) w \<and>
      (\<forall>t\<in>set (tellers s). teller_inv t))"

text \<open>
  The variables of \<^verbatim>\<open>run_simulation\<close> when its loop is entered, and the world at that point
  (banner printed, generator seeded from the clock, four allocations made).
\<close>

definition initial_sim :: "int \<Rightarrow> sim" where
  "initial_sim num_tellers =
     \<lparr>bank_queue = \<lparr>front = None, rear = None, customer_count = 0\<rparr>,
      storage = \<lparr>wait_times = replicate (nat INITIAL_STORAGE_CAPACITY) None, count = 0,
                 capacity = INITIAL_STORAGE_CAPACITY\<rparr>,
      tellers = replicate (nat num_tellers) \<lparr>is_busy = 0, remaining_service_time = 0\<rparr>,
      total_arrivals = 0\<rparr>"

definition started :: "world \<Rightarrow> world" where
  "started w =
     w\<lparr>stdout := stdout w @ [''--- Starting 8-Hour (480 Minute) Simulation ---''],
       rand_seed := to_unsigned (clock w), rand_pos := 0,
       srand_log := srand_log w @ [to_unsigned (clock w)], alloc_pos := alloc_pos w + 4\<rparr>"

definition realloc_failed :: string where
  "realloc_failed = ''Failed to re-allocate memory for wait time array''"

definition env_inv :: "world \<Rightarrow> world \<Rightarrow> bool" where
  "env_inv ws w =
     (rand_gen w = rand_gen ws \<and> rand_seed w = rand_seed ws \<and> srand_log w = srand_log ws \<and>
      alloc_ok w = alloc_ok ws \<and> clock w = clock ws \<and> stdout w = stdout ws \<and>
      (\<exists>k. stderr w = stderr ws @ replicate k realloc_failed \<and>
           (0 < k \<longrightarrow> (\<exists>n. \<not> alloc_ok ws n))))"

text \<open>
  Example inputs. \<open>real_platform\<close> is double arithmetic read as exact real arithmetic, with
  glibc's \<open>RAND_MAX\<close>. \<open>gen_burst n\<close> is a generator whose first \<open>n\<close> values are \<open>RAND_MAX\<close> and
  whose later values are 0: on \<open>real_platform\<close> it gives \<open>n\<close> arrivals in minute 0, none
  afterwards, and service times of 2.
\<close>

definition real_platform :: "real platform" where
  "real_platform =
     \<lparr>fp_exp = exp, fp_neg = uminus, fp_one = 1, fp_of_int = of_int, fp_div = (/),
      fp_mul = (*), fp_gt = (\<lambda>x y. x > y), fp_le = (\<lambda>x y. x \<le> y), RAND_MAX = 2147483647\<rparr>"

definition gen_burst :: "nat \<Rightarrow> nat \<Rightarrow> nat \<Rightarrow> nat" where
  "gen_burst n seed i = (if i < n then 2147483647 else 0)"

definition idle_teller :: Teller where
  "idle_teller = \<lparr>is_busy = 0, remaining_service_time = 0\<rparr>"

definition zero_from :: "(nat \<Rightarrow> nat \<Rightarrow> nat) \<Rightarrow> nat \<Rightarrow> nat \<Rightarrow> bool" where
  "zero_from gen seed p = (\<forall>i\<ge>p. gen seed i = 0)"

text \<open>Nobody waits, every teller is idle and every further draw of rand() is 0.\<close>

definition quiet :: "sim \<Rightarrow> world \<Rightarrow> bool" where
  "quiet s w =
     (is_empty (bank_queue s) \<and> (\<forall>t\<in>set (tellers s). t = idle_teller) \<and>
      INT_MIN \<le> total_arrivals s \<and> total_arrivals s \<le> INT_MAX \<and>
      zero_from (rand_gen w) (rand_seed w) (rand_pos w))"

text \<open>
  A run with two tellers and three arrivals in minute 0: two customers are served at once,
  the third waits two minutes.
\<close>

definition final_A :: sim where
  "final_A =
     \<lparr>bank_queue = \<lparr>front = None, rear = None, customer_count = 0\<rparr>,
      storage = \<lparr>wait_times = [Some 0, Some 0, Some 2] @ replicate 97 None, count = 3,
                 capacity = 100\<rparr>,
      tellers = [idle_teller, idle_teller],
      total_arrivals = 3\<rparr>"

definition world_A :: world where
  "world_A = initial_world (gen_burst 3) (\<lambda>n. True) 0"

definition after_minute0_A :: sim where
  "after_minute0_A =
     \<lparr>bank_queue = \<lparr>front = Some 2, rear = Some 2, customer_count = 1\<rparr>,
      storage = \<lparr>wait_times = [Some 0, Some 0] @ replicate 98 None, count = 2, capacity = 100\<rparr>,
      tellers = [\<lparr>is_busy = 1, remaining_service_time = 2\<rparr>,
                 \<lparr>is_busy = 1, remaining_service_time = 2\<rparr>],
      total_arrivals = 3\<rparr>"

text \<open>
  The uniform draw made from a value of \<^verbatim>\<open>rand()\<close>, and the product of \<open>p\<close> with the next
  \<open>n\<close> draws, multiplied in the order of the loop. \<open>gen_max\<close> is the generator that always
  returns \<open>RAND_MAX\<close>.
\<close>

definition uniform :: "'d platform \<Rightarrow> nat \<Rightarrow> 'd" where
  "uniform fp r = fp_div fp (fp_of_int fp (int r)) (fp_of_int fp (RAND_MAX fp))"

fun running_product :: "'d platform \<Rightarrow> world \<Rightarrow> 'd \<Rightarrow> nat \<Rightarrow> 'd" where
  "running_product fp w p 0 = p"
| "running_product fp w p (Suc n) =
     running_product fp (snd (rand w)) (fp_mul fp p (uniform fp (fst (rand w)))) n"

definition gen_max :: "nat \<Rightarrow> nat \<Rightarrow> nat" where
  "gen_max seed i = 2147483647"

text \<open>
  The mode as the specification words it: a value of the data with the highest frequency,
  the smallest of those.
\<close>

definition is_mode :: "int list \<Rightarrow> int \<Rightarrow> bool" where
  "is_mode data m =
     (m \<in> set data \<and> (\<forall>x\<in>set data. count_list data x \<le> count_list data m) \<and>
      (\<forall>x\<in>set data. count_list data x = count_list data m \<longrightarrow> m \<le> x))"

text \<open>
  \<open>idle_before ts i\<close> is the number of idle tellers among the first \<open>i\<close> of \<open>ts\<close>: the number
  of customers that the tellers before index \<open>i\<close> can take.
\<close>

definition idle_before :: "Teller list \<Rightarrow> nat \<Rightarrow> nat" where
  "idle_before ts i = length (filter (\<lambda>t. is_busy t = 0) (take i ts))"

text \<open>
  A state at the head of minute 2 in which nobody waits, the tellers 0 and 2 have one minute
  of service left and teller 1 has three, with a generator that gives two arrivals; and the
  state one minute later.
\<close>

definition freed_state :: sim where
  "freed_state =
     \<lparr>bank_queue = \<lparr>front = None, rear = None, customer_count = 0\<rparr>,
      storage = \<lparr>wait_times = [Some 0, Some 0, Some 0] @ replicate 97 None, count = 3,
                 capacity = 100\<rparr>,
      tellers = [\<lparr>is_busy = 1, remaining_service_time = 1\<rparr>,
                 \<lparr>is_busy = 1, remaining_service_time = 3\<rparr>,
                 \<lparr>is_busy = 1, remaining_service_time = 1\<rparr>],
      total_arrivals = 3\<rparr>"

definition freed_world :: world where
  "freed_world = initial_world (gen_burst 2) (\<lambda>n. True) 0"

definition freed_ticked :: "Teller list" where
  "freed_ticked = [idle_teller, \<lparr>is_busy = 1, remaining_service_time = 2\<rparr>, idle_teller]"

definition freed_after :: sim where
  "freed_after =
     \<lparr>bank_queue = \<lparr>front = None, rear = None, customer_count = 0\<rparr>,
      storage = \<lparr>wait_times = [Some 0, Some 0, Some 0, Some 0, Some 0] @ replicate 95 None,
                 count = 5, capacity = 100\<rparr>,
      tellers = [\<lparr>is_busy = 1, remaining_service_time = 2\<rparr>,
                 \<lparr>is_busy = 1, remaining_service_time = 2\<rparr>,
                 \<lparr>is_busy = 1, remaining_service_time = 2\<rparr>],
      total_arrivals = 5\<rparr>"

text \<open>
  A run in which the storage cannot grow. \<open>world_B\<close> gives 101 arrivals in minute 0 and lets
  the first 105 allocations succeed (the queue, the storage and its array, the tellers and
  the 101 customers); every later one fails. \<open>out_of_memory w\<close>: every allocation from now on
  fails. \<open>serving t\<close>: the teller has just been given a customer. \<open>calm s w\<close>: nobody waits,
  no teller holds an impossible time and every further draw of rand() is 0.
\<close>

definition out_of_memory :: "world \<Rightarrow> bool" where
  "out_of_memory w = (\<forall>i\<ge>alloc_pos w. \<not> alloc_ok w i)"

definition serving :: "Teller \<Rightarrow> bool" where
  "serving t = (is_busy t = 1 \<and> 2 \<le> remaining_service_time t \<and> remaining_service_time t \<le> 3)"

definition winding_down :: "Teller \<Rightarrow> bool" where
  "winding_down t =
     (0 \<le> remaining_service_time t \<and> remaining_service_time t \<le> 3 \<and>
      (is_busy t = 0 \<or> 1 \<le> remaining_service_time t))"

definition calm :: "sim \<Rightarrow> world \<Rightarrow> bool" where
  "calm s w =
     (is_empty (bank_queue s) \<and> list_all winding_down (tellers s) \<and>
      INT_MIN \<le> total_arrivals s \<and> total_arrivals s \<le> INT_MAX \<and>
      zero_from (rand_gen w) (rand_seed w) (rand_pos w))"

definition world_B :: world where
  "world_B = initial_world (gen_burst 101) (\<lambda>n. n < 105) 0"

text \<open>
  The three numbers of the summary that \<^verbatim>\<open>run_simulation\<close> prints after its loop: customers
  arrived, customers served (the recorded wait times) and customers left in the queue; and
  the conservation law between them.
\<close>

definition simulation_summary ::
  "'d platform \<Rightarrow> 'd \<Rightarrow> int \<Rightarrow> world \<Rightarrow> error + (int \<times> int \<times> int)" where
  "simulation_summary fp lambda num_tellers w =
     (case run_simulation fp lambda num_tellers w of
        Inl e \<Rightarrow> Inl e
      | Inr (s, w') \<Rightarrow>
          Inr (total_arrivals s, count (storage s), customer_count (bank_queue s)))"

definition conserved :: "int \<times> int \<times> int \<Rightarrow> bool" where
  "conserved r = (case r of (arrived, served, waiting) \<Rightarrow> arrived - served = waiting)"

text \<open>
  A generator whose sequence depends on its seed: seeded with \<open>n\<close> it gives \<open>n\<close> times
  \<open>RAND_MAX\<close>, then 0. \<open>midnight_world\<close> is a process with this generator, started when the
  clock reads 0.
\<close>

definition gen_seeded :: "nat \<Rightarrow> nat \<Rightarrow> nat" where
  "gen_seeded seed i = (if i < seed then 2147483647 else 0)"

definition midnight_world :: world where
  "midnight_world = initial_world gen_seeded (\<lambda>n. True) 0"

text \<open>
  Two runs compared. \<open>same_draws w1 w2\<close>: the generators of the two worlds give the same
  values from their current positions on; \<open>same_allocs w1 w2\<close>: the allocators give the same
  answers from their current positions on; \<open>advanced w w' r d\<close>: from \<open>w\<close> to \<open>w'\<close> the
  generator made \<open>r\<close> draws and the allocator answered \<open>d\<close> requests. \<open>queue_rel\<close> relates two
  queues that hold customers with the same arrival minutes in the same order, whatever
  their addresses, and \<open>sim_rel\<close> two states of the loop that agree on everything but
  addresses.
\<close>

definition same_draws :: "world \<Rightarrow> world \<Rightarrow> bool" where
  "same_draws w1 w2 =
     (\<forall>i. rand_gen w1 (rand_seed w1) (rand_pos w1 + i) =
          rand_gen w2 (rand_seed w2) (rand_pos w2 + i))"

definition same_allocs :: "world \<Rightarrow> world \<Rightarrow> bool" where
  "same_allocs w1 w2 = (\<forall>i. alloc_ok w1 (alloc_pos w1 + i) = alloc_ok w2 (alloc_pos w2 + i))"

definition world_rel :: "world \<Rightarrow> world \<Rightarrow> bool" where
  "world_rel w1 w2 = (same_draws w1 w2 \<and> same_allocs w1 w2)"

definition advanced :: "world \<Rightarrow> world \<Rightarrow> nat \<Rightarrow> nat \<Rightarrow> bool" where
  "advanced w w' r d =
     (rand_gen w' = rand_gen w \<and> rand_seed w' = rand_seed w \<and> rand_pos w' = rand_pos w + r \<and>
      alloc_ok w' = alloc_ok w \<and> alloc_pos w' = alloc_pos w + d)"

definition queue_rel :: "world \<Rightarrow> Queue \<Rightarrow> world \<Rightarrow> Queue \<Rightarrow> bool" where
  "queue_rel w1 q1 w2 q2 =
     (\<exists>as1 as2. queue_inv w1 q1 as1 \<and> queue_inv w2 q2 as2 \<and>
        map (arrival_of w1) as1 = map (arrival_of w2) as2)"

definition sim_rel :: "sim \<Rightarrow> world \<Rightarrow> sim \<Rightarrow> world \<Rightarrow> bool" where
  "sim_rel s1 w1 s2 w2 =
     (tellers s1 = tellers s2 \<and> storage s1 = storage s2 \<and>
      total_arrivals s1 = total_arrivals s2 \<and>
      queue_rel w1 (bank_queue s1) w2 (bank_queue s2) \<and> world_rel w1 w2)"

text \<open>
  What a run leaves behind: the number of customers that arrived, the recorded wait times
  in order and the arrival minutes of the customers still queued, front first.
  \<open>queue_contents\<close> follows the \<^verbatim>\<open>next\<close> pointers from \<^verbatim>\<open>front\<close> for \<^verbatim>\<open>customer_count\<close> nodes.
\<close>

fun queue_walk :: "(addr \<Rightarrow> Customer option) \<Rightarrow> addr option \<Rightarrow> nat \<Rightarrow> int list" where
  "queue_walk h p 0 = []"
| "queue_walk h p (Suc n) =
     (case p of
        None \<Rightarrow> []
      | Some a \<Rightarrow> (case h a of None \<Rightarrow> [] | Some c \<Rightarrow> arrival_minute c # queue_walk h (c_next c) n))"

definition queue_contents :: "world \<Rightarrow> Queue \<Rightarrow> int list" where
  "queue_contents w q = queue_walk (heap w) (front q) (nat (customer_count q))"

definition run_outcome ::
  "'d platform \<Rightarrow> 'd \<Rightarrow> int \<Rightarrow> world \<Rightarrow> error + (int \<times> int option list \<times> int list)" where
  "run_outcome fp lambda num_tellers w =
     (case run_simulation fp lambda num_tellers w of
        Inl e \<Rightarrow> Inl e
      | Inr (s, w') \<Rightarrow>
          Inr (total_arrivals s, recorded (storage s), queue_contents w' (bank_queue s)))"

text \<open>
  The process of the example run \<open>world_A\<close> started again later: other addresses, another
  state of the generator and of the allocator, and a clock that differs by \<open>UINT_MAX + 1\<close>.
\<close>

definition world_A_again :: world where
  "world_A_again =
     world_A\<lparr>next_addr := 5, rand_seed := 7, rand_pos := 9, alloc_pos := 10,
             clock := 4294967296\<rparr>"

section \<open>Basic facts\<close>

declare poisson_loop.simps [simp del]
declare sim_loop.simps [simp del]

lemma bind_err_simps [simp]:
  "bind_err (Inl e) f = Inl e" "bind_err (Inr x) f = f x"
  by (simp_all add: bind_err_def)

lemma bind_err_Inr_iff:
  "bind_err m f = Inr y \<longleftrightarrow> (\<exists>x. m = Inr x \<and> f x = Inr y)"
  by (cases m) simp_all

lemma c_int_Inr_iff: "c_int x = Inr y \<longleftrightarrow> y = x \<and> INT_MIN \<le> x \<and> x \<le> INT_MAX"
  by (auto simp: c_int_def)

section \<open>The wait-time storage\<close>

lemma store_wait_time_ok:
  assumes "0 \<le> count st" "count st < int (length (wait_times st))" "count st < INT_MAX"
  shows "store_wait_time st wt w =
           Inr (st\<lparr>wait_times := (wait_times st)[nat (count st) := Some wt], count := count st + 1\<rparr>, w)"
  using assms by (simp add: store_wait_time_def c_int_def INT_MIN_def INT_MAX_def)

lemma recorded_store:
  assumes "0 \<le> count st" "count st < int (length (wait_times st))"
  shows "recorded (st\<lparr>wait_times := (wait_times st)[nat (count st) := Some wt], count := count st + 1\<rparr>)
         = recorded st @ [Some wt]"
proof -
  have n: "nat (count st + 1) = Suc (nat (count st))" using assms by simp
  have l: "nat (count st) < length (wait_times st)" using assms by simp
  show ?thesis
    using l by (simp add: recorded_def n take_Suc_conv_app_nth)
qed

lemma add_wait_time_fail:
  assumes "count st = capacity st" "INT_MIN \<le> capacity st * 2" "capacity st * 2 \<le> INT_MAX"
    "\<not> alloc_ok w (alloc_pos w)"
  shows "add_wait_time st wt w =
           Inr (st, w\<lparr>alloc_pos := alloc_pos w + 1,
                      stderr := stderr w @ [''Failed to re-allocate memory for wait time array'']\<rparr>)"
  using assms by (simp add: add_wait_time_def c_int_def alloc_request_def perror_def)

lemma add_wait_time_room:
  assumes "storage_ok st" "count st \<noteq> capacity st"
  shows "add_wait_time st wt w =
           Inr (st\<lparr>wait_times := (wait_times st)[nat (count st) := Some wt], count := count st + 1\<rparr>, w)"
proof -
  have "count st < int (length (wait_times st))" "0 \<le> count st" "count st < INT_MAX"
    using assms by (auto simp: storage_ok_def)
  then show ?thesis using assms(2) by (simp add: add_wait_time_def store_wait_time_ok)
qed

lemma add_wait_time_grow:
  assumes "storage_ok st" "count st = capacity st" "capacity st * 2 \<le> INT_MAX"
    "alloc_ok w (alloc_pos w)"
  shows "add_wait_time st wt w =
           Inr (st\<lparr>wait_times := (realloc_cells (wait_times st) (capacity st * 2))[nat (count st) := Some wt],
                    capacity := capacity st * 2, count := count st + 1\<rparr>,
                w\<lparr>alloc_pos := alloc_pos w + 1\<rparr>)"
proof -
  let ?s1 = "st\<lparr>wait_times := realloc_cells (wait_times st) (capacity st * 2), capacity := capacity st * 2\<rparr>"
  have len: "length (realloc_cells (wait_times st) (capacity st * 2)) = nat (capacity st * 2)"
    using assms(1) by (auto simp: realloc_cells_def storage_ok_def)
  have c: "c_int (capacity st * 2) = Inr (capacity st * 2)"
    using assms by (simp add: c_int_def storage_ok_def INT_MIN_def)
  have "store_wait_time ?s1 wt (w\<lparr>alloc_pos := alloc_pos w + 1\<rparr>) =
        Inr (?s1\<lparr>wait_times := (wait_times ?s1)[nat (count ?s1) := Some wt], count := count ?s1 + 1\<rparr>,
             w\<lparr>alloc_pos := alloc_pos w + 1\<rparr>)"
    using assms len by (intro store_wait_time_ok) (auto simp: storage_ok_def)
  then show ?thesis
    using assms(2,4) c by (simp add: add_wait_time_def alloc_request_def)
qed

lemma add_wait_time_append:
  assumes ok: "storage_ok st"
    and go: "count st \<noteq> capacity st \<or> (capacity st * 2 \<le> INT_MAX \<and> alloc_ok w (alloc_pos w))"
  shows "\<exists>st' w'. add_wait_time st wt w = Inr (st', w') \<and> count st' = count st + 1 \<and>
           recorded st' = recorded st @ [Some wt] \<and> storage_ok st' \<and> stderr w' = stderr w"
proof (cases "count st = capacity st")
  case False
  have r: "0 \<le> count st" "count st < int (length (wait_times st))"
    using ok False by (auto simp: storage_ok_def)
  show ?thesis
    using add_wait_time_room[OF ok False, of wt w] recorded_store[OF r, of wt] ok False
    by (auto simp: storage_ok_def)
next
  case True
  let ?cells = "realloc_cells (wait_times st) (capacity st * 2)"
  let ?s1 = "st\<lparr>wait_times := ?cells, capacity := capacity st * 2\<rparr>"
  have len: "length ?cells = nat (capacity st * 2)"
    using ok by (auto simp: realloc_cells_def storage_ok_def)
  have keep: "take (nat (count st)) ?cells = take (nat (count st)) (wait_times st)"
    using ok True by (auto simp: realloc_cells_def storage_ok_def)
  have r: "0 \<le> count ?s1" "count ?s1 < int (length (wait_times ?s1))"
    using ok True len by (auto simp: storage_ok_def)
  have "recorded (?s1\<lparr>wait_times := (wait_times ?s1)[nat (count ?s1) := Some wt], count := count ?s1 + 1\<rparr>)
        = recorded ?s1 @ [Some wt]"
    by (rule recorded_store[OF r])
  moreover have "recorded ?s1 = recorded st" using keep by (simp add: recorded_def)
  ultimately show ?thesis
    using add_wait_time_grow[OF ok True, of w wt] go True ok len
    by (auto simp: storage_ok_def recorded_def)
qed

text \<open>
  Claim C5. When the storage is full and the reallocation fails, \<open>add_wait_time\<close>
  returns normally with the storage unchanged (count, capacity and every cell), having
  written its message to the error stream; the caller goes on. When the storage has room,
  or is full and the reallocation succeeds, the value is appended to the recorded values
  and the count grows by exactly one, with nothing written to the error stream.
\<close>

theorem add_wait_time_drop_or_append:
  "(count st = capacity st \<and> INT_MIN \<le> capacity st * 2 \<and> capacity st * 2 \<le> INT_MAX \<and>
    \<not> alloc_ok w (alloc_pos w) \<longrightarrow>
      add_wait_time st wt w =
        Inr (st, w\<lparr>alloc_pos := alloc_pos w + 1,
                   stderr := stderr w @ [''Failed to re-allocate memory for wait time array'']\<rparr>)) \<and>
   (storage_ok st \<and>
    (count st \<noteq> capacity st \<or> capacity st * 2 \<le> INT_MAX \<and> alloc_ok w (alloc_pos w)) \<longrightarrow>
      (\<exists>st' w'. add_wait_time st wt w = Inr (st', w') \<and> count st' = count st + 1 \<and>
         recorded st' = recorded st @ [Some wt] \<and> storage_ok st' \<and> stderr w' = stderr w))"
  using add_wait_time_fail[of st w wt] add_wait_time_append[of st w wt] by blast

theorem add_wait_time_drop_or_append_witness:
  "add_wait_time full_storage 7 (initial_world (\<lambda>s i. 0) (\<lambda>n. False) 0) =
     Inr (full_storage,
          (initial_world (\<lambda>s i. 0) (\<lambda>n. False) 0)
            \<lparr>alloc_pos := 1, stderr := [''Failed to re-allocate memory for wait time array'']\<rparr>) \<and>
   (\<exists>st' w'. add_wait_time full_storage 7 (initial_world (\<lambda>s i. 0) (\<lambda>n. True) 0) = Inr (st', w') \<and>
      count st' = 3 \<and> recorded st' = [Some 0, Some 4, Some 7] \<and> storage_ok st' \<and> stderr w' = [])"
  using add_wait_time_drop_or_append[of full_storage "initial_world (\<lambda>s i. 0) (\<lambda>n. False) 0" 7]
        add_wait_time_drop_or_append[of full_storage "initial_world (\<lambda>s i. 0) (\<lambda>n. True) 0" 7]
  by (simp add: full_storage_def initial_world_def storage_ok_def recorded_def INT_MIN_def INT_MAX_def)

section \<open>The queue\<close>

lemma chain_upd_other:
  "a \<notin> set as \<Longrightarrow> chain (h(a := v)) p as = chain h p as"
  by (induction as arbitrary: p) (auto split: option.splits)

lemma chain_in_heap: "chain h p as \<Longrightarrow> a \<in> set as \<Longrightarrow> h a \<noteq> None"
  by (induction as arbitrary: p) (auto split: option.splits)

lemma chain_last_next:
  "chain h p (as @ [r]) \<Longrightarrow> \<exists>c. h r = Some c \<and> c_next c = None"
  by (induction as arbitrary: p) (auto split: option.splits)

lemma chain_snoc:
  assumes "chain h p (as @ [r])" "distinct (as @ [r])" "n \<notin> set (as @ [r])" "h r = Some c"
  shows "chain (h(n \<mapsto> \<lparr>arrival_minute = v, c_next = None\<rparr>, r \<mapsto> c\<lparr>c_next := Some n\<rparr>)) p (as @ [r, n])"
  using assms
proof (induction as arbitrary: p)
  case Nil
  then show ?case by auto
next
  case (Cons a as)
  then show ?case by (auto split: option.splits)
qed

lemma chain_front_None: "chain h None as \<longleftrightarrow> as = []"
  by (cases as) auto

lemma queue_inv_empty_iff: "queue_inv w q as \<Longrightarrow> is_empty q \<longleftrightarrow> as = []"
  by (cases as) (auto simp: queue_inv_def is_empty_def)

lemma enqueue_inv:
  assumes inv: "queue_inv w q as" and e: "enqueue q v w = Inr (q', w')"
  shows "queue_inv w' q' (as @ [next_addr w]) \<and>
         arrival_of w' (next_addr w) = v \<and> (\<forall>a\<in>set as. arrival_of w' a = arrival_of w a) \<and>
         alloc_ok w (alloc_pos w) \<and>
         (\<exists>h. w' = w\<lparr>heap := h, next_addr := next_addr w + 1, alloc_pos := alloc_pos w + 1\<rparr>)"
proof -
  let ?n = "next_addr w"
  have ok: "alloc_ok w (alloc_pos w)"
    using e by (auto simp: enqueue_def malloc_Customer_def alloc_request_def split: if_splits)
  have fresh: "?n \<notin> set as" using inv by (auto simp: queue_inv_def)
  show ?thesis
  proof (cases as rule: rev_cases)
    case Nil
    then have emp: "is_empty q" using inv queue_inv_empty_iff by blast
    have cc: "customer_count q = 0" using inv Nil by (simp add: queue_inv_def)
    from e ok emp cc have
      q': "q' = q\<lparr>front := Some ?n, rear := Some ?n, customer_count := 1\<rparr>" and
      w': "w' = w\<lparr>heap := (heap w)(?n \<mapsto> \<lparr>arrival_minute = v, c_next = None\<rparr>),
                  next_addr := ?n + 1, alloc_pos := alloc_pos w + 1\<rparr>"
      by (auto simp: enqueue_def malloc_Customer_def alloc_request_def bind_err_Inr_iff
                     c_int_Inr_iff)
    show ?thesis using Nil ok by (auto simp: q' w' queue_inv_def arrival_of_def INT_MAX_def)
  next
    case (snoc bs r)
    then have ne: "\<not> is_empty q" using inv queue_inv_empty_iff by blast
    have rq: "rear q = Some r" using inv snoc by (simp add: queue_inv_def)
    have ch: "chain (heap w) (front q) (bs @ [r])" and d: "distinct (bs @ [r])"
      using inv snoc by (auto simp: queue_inv_def)
    from chain_last_next[OF ch] obtain c where c: "heap w r = Some c" "c_next c = None" by blast
    have rn: "r \<noteq> ?n" using fresh snoc by auto
    from e ok ne rq c rn have le: "customer_count q + 1 \<le> INT_MAX"
      by (auto simp: enqueue_def malloc_Customer_def alloc_request_def bind_err_Inr_iff
                     c_int_Inr_iff)
    from e ok ne rq c rn have
      q': "q' = q\<lparr>rear := Some ?n, customer_count := customer_count q + 1\<rparr>" and
      w': "w' = w\<lparr>heap := (heap w)(?n \<mapsto> \<lparr>arrival_minute = v, c_next = None\<rparr>,
                                    r \<mapsto> c\<lparr>c_next := Some ?n\<rparr>),
                  next_addr := ?n + 1, alloc_pos := alloc_pos w + 1\<rparr>"
      by (auto simp: enqueue_def malloc_Customer_def alloc_request_def bind_err_Inr_iff
                     c_int_Inr_iff)
    have ch': "chain (heap w') (front q') (bs @ [r, ?n])"
      using chain_snoc[OF ch d _ c(1), of ?n v] fresh snoc by (simp add: q' w')
    have "\<forall>a\<in>set as. arrival_of w' a = arrival_of w a"
      using fresh c rn by (auto simp: w' arrival_of_def)
    moreover have "arrival_of w' ?n = v" using rn by (simp add: w' arrival_of_def)
    moreover have "queue_inv w' q' (as @ [?n])"
      using ch' inv fresh snoc le by (auto simp: queue_inv_def q' w')
    ultimately show ?thesis using ok by (auto simp: w')
  qed
qed

lemma dequeue_empty: "is_empty q \<Longrightarrow> dequeue q w = Inr (None, q)"
  by (simp add: dequeue_def)

lemma dequeue_inv:
  assumes inv: "queue_inv w q (a # as)"
  shows "\<exists>q'. dequeue q w = Inr (Some a, q') \<and> queue_inv (free_Customer a w) q' as \<and>
              queue_inv w q' as \<and>
              (\<forall>b\<in>set as. arrival_of (free_Customer a w) b = arrival_of w b) \<and>
              heap w a \<noteq> None"
proof -
  have ne: "\<not> is_empty q" and f: "front q = Some a"
    using inv by (auto simp: queue_inv_def is_empty_def)
  from inv obtain c where c: "heap w a = Some c" and ch: "chain (heap w) (c_next c) as"
    by (auto simp: queue_inv_def split: option.splits)
  have cc: "customer_count q = 1 + int (length as)" using inv by (simp add: queue_inv_def)
  have na: "a \<notin> set as" using inv by (simp add: queue_inv_def)
  have nn: "c_next c = None \<longleftrightarrow> as = []" using ch by (cases as) auto
  have len: "int (length as) \<le> INT_MAX" using inv by (simp add: queue_inv_def)
  let ?q' = "q\<lparr>front := c_next c, rear := (if as = [] then None else rear q),
               customer_count := int (length as)\<rparr>"
  have d: "dequeue q w = Inr (Some a, ?q')"
    using ne f c cc nn len
    by (auto simp: dequeue_def Let_def bind_err_Inr_iff c_int_Inr_iff INT_MIN_def)
  have q1: "queue_inv w ?q' as"
    using inv ch len by (auto simp: queue_inv_def)
  have "chain (heap (free_Customer a w)) (c_next c) as"
    using ch na by (simp add: free_Customer_def chain_upd_other)
  then have q2: "queue_inv (free_Customer a w) ?q' as"
    using q1 by (auto simp: queue_inv_def free_Customer_def)
  have "\<forall>b\<in>set as. arrival_of (free_Customer a w) b = arrival_of w b"
    using na by (auto simp: arrival_of_def free_Customer_def)
  then show ?thesis using d q1 q2 c by auto
qed

lemma run_queue_ops_fifo:
  "queue_inv w q as \<Longrightarrow> run_queue_ops ops q w = Inr (served, q', w') \<Longrightarrow>
   \<exists>as'. queue_inv w' q' as' \<and>
          served @ map (arrival_of w') as' = map (arrival_of w) as @ enqueued ops"
proof (induction ops q w arbitrary: as served rule: run_queue_ops.induct)
  case (1 q w)
  then show ?case by auto
next
  case (2 v ops q w)
  from "2.prems"(2) obtain q1 w1 where e: "enqueue q v w = Inr (q1, w1)"
    and r: "run_queue_ops ops q1 w1 = Inr (served, q', w')"
    by (auto simp: bind_err_Inr_iff)
  from enqueue_inv[OF "2.prems"(1) e] have
    i: "queue_inv w1 q1 (as @ [next_addr w])" and
    m: "map (arrival_of w1) (as @ [next_addr w]) = map (arrival_of w) as @ [v]"
    by auto
  from "2.IH"[OF i r] m show ?case by auto
next
  case (3 ops q w)
  show ?case
  proof (cases as)
    case Nil
    then have "is_empty q" using "3.prems"(1) queue_inv_empty_iff by blast
    then have d: "dequeue q w = Inr (None, q)" by (rule dequeue_empty)
    with "3.prems"(2) have r: "run_queue_ops ops q w = Inr (served, q', w')" by simp
    from "3.IH"(1)[OF refl "3.prems"(1) r] show ?thesis by simp
  next
    case (Cons a bs)
    from dequeue_inv[OF "3.prems"(1)[unfolded Cons]] obtain q1 c where
      d: "dequeue q w = Inr (Some a, q1)" and
      i: "queue_inv (free_Customer a w) q1 bs" and
      m: "\<forall>b\<in>set bs. arrival_of (free_Customer a w) b = arrival_of w b" and
      c: "heap w a = Some c"
      by auto
    from "3.prems"(2) d c obtain rest where
      r: "run_queue_ops ops q1 (free_Customer a w) = Inr (rest, q', w')" and
      s: "served = arrival_minute c # rest"
      by (auto simp: bind_err_Inr_iff)
    from "3.IH"(2)[OF refl c i r] obtain as' where
      "queue_inv w' q' as'"
      "rest @ map (arrival_of w') as' = map (arrival_of (free_Customer a w)) bs @ enqueued ops"
      by blast
    moreover have "map (arrival_of (free_Customer a w)) bs = map (arrival_of w) bs"
      using m by simp
    moreover have "arrival_of w a = arrival_minute c" using c by (simp add: arrival_of_def)
    ultimately show ?thesis using s Cons by auto
  qed
qed

lemma create_queue_inv: "create_queue w = Inr (q, w') \<Longrightarrow> queue_inv w' q []"
  by (auto simp: create_queue_def alloc_request_def queue_inv_def INT_MAX_def split: if_splits)


lemma fifo_run:
  "\<exists>q' w'. run_queue_ops fifo_ops empty_queue (initial_world (\<lambda>s i. 0) (\<lambda>n. True) 0) = Inr ([3, 5, 7], q', w')"
  by (simp add: fifo_ops_def empty_queue_def initial_world_def enqueue_def dequeue_def
        malloc_Customer_def alloc_request_def is_empty_def c_int_def INT_MIN_def INT_MAX_def
        free_Customer_def)


text \<open>
  Claim C7. The queue is first-in first-out: after any sequence of enqueue and dequeue
  operations that runs to its end, the customers dequeued, in the order of their removal,
  followed by the customers still queued from front to rear, are the customers that were
  there at the start followed by the enqueued ones in the order of their insertion.
  \<open>create_queue\<close> gives the empty queue. A dequeue on a queue holding \<open>a # as\<close> returns the
  front node \<open>a\<close> and leaves \<open>as\<close>; a dequeue on an empty queue returns NULL and the queue
  as it was.
\<close>

theorem queue_fifo:
  "(queue_inv w q as \<and> run_queue_ops ops q w = Inr (served, q', w') \<longrightarrow>
      (\<exists>as'. queue_inv w' q' as' \<and>
         served @ map (arrival_of w') as' = map (arrival_of w) as @ enqueued ops)) \<and>
   (create_queue w = Inr (q0, w0) \<longrightarrow> queue_inv w0 q0 [] \<and> is_empty q0) \<and>
   (queue_inv w q (a # as) \<longrightarrow>
      (\<exists>q1. dequeue q w = Inr (Some a, q1) \<and> queue_inv w q1 as \<and>
         customer_count q1 = customer_count q - 1)) \<and>
   (is_empty q \<longrightarrow> dequeue q w = Inr (None, q))"
proof (intro conjI impI)
  assume "queue_inv w q as \<and> run_queue_ops ops q w = Inr (served, q', w')"
  then show "\<exists>as'. queue_inv w' q' as' \<and>
      served @ map (arrival_of w') as' = map (arrival_of w) as @ enqueued ops"
    using run_queue_ops_fifo by blast
next
  assume c: "create_queue w = Inr (q0, w0)"
  then show "queue_inv w0 q0 []" by (rule create_queue_inv)
  then show "is_empty q0" using queue_inv_empty_iff by blast
next
  assume i: "queue_inv w q (a # as)"
  from dequeue_inv[OF i] obtain q1 where
    d: "dequeue q w = Inr (Some a, q1)" and i1: "queue_inv w q1 as" by blast
  have "customer_count q1 = customer_count q - 1"
    using i i1 by (simp add: queue_inv_def)
  with d i1 show "\<exists>q1. dequeue q w = Inr (Some a, q1) \<and> queue_inv w q1 as \<and>
      customer_count q1 = customer_count q - 1" by blast
next
  assume "is_empty q"
  then show "dequeue q w = Inr (None, q)" by (rule dequeue_empty)
qed

theorem queue_fifo_witness:
  "(\<exists>q' w' as'.
      run_queue_ops fifo_ops empty_queue (initial_world (\<lambda>s i. 0) (\<lambda>n. True) 0) = Inr ([3, 5, 7], q', w') \<and>
      queue_inv w' q' as' \<and> [3, 5, 7] @ map (arrival_of w') as' = [3, 5, 7, 9]) \<and>
   (\<exists>w0. create_queue (initial_world (\<lambda>s i. 0) (\<lambda>n. True) 0) = Inr (empty_queue, w0) \<and>
      queue_inv w0 empty_queue [] \<and> is_empty empty_queue) \<and>
   (\<exists>q1. dequeue two_queue two_world = Inr (Some 0, q1) \<and> queue_inv two_world q1 [1] \<and>
      customer_count q1 = 1) \<and>
   dequeue empty_queue two_world = Inr (None, empty_queue)"
proof -
  let ?W = "initial_world (\<lambda>s i. 0) (\<lambda>n. True) 0"
  obtain q' w' where r: "run_queue_ops fifo_ops empty_queue ?W = Inr ([3, 5, 7], q', w')"
    using fifo_run by blast
  have i0: "queue_inv ?W empty_queue []"
    by (simp add: queue_inv_def empty_queue_def INT_MAX_def)
  have c: "create_queue ?W = Inr (empty_queue, ?W\<lparr>alloc_pos := 1\<rparr>)"
    by (simp add: create_queue_def alloc_request_def initial_world_def empty_queue_def)
  have i2: "queue_inv two_world two_queue [0, 1]"
    by (simp add: queue_inv_def two_world_def two_queue_def INT_MAX_def)
  have e: "is_empty empty_queue" by (simp add: is_empty_def empty_queue_def)
  have "enqueued fifo_ops = [3, 5, 7, 9]" by (simp add: fifo_ops_def)
  then show ?thesis
    using queue_fifo[of ?W empty_queue "[]" fifo_ops "[3, 5, 7]" q' w' empty_queue "?W\<lparr>alloc_pos := 1\<rparr>"]
          queue_fifo[of two_world two_queue "[1]" "[]" "[]" two_queue two_world empty_queue two_world 0]
          queue_fifo[of two_world empty_queue "[]" "[]" "[]" empty_queue two_world empty_queue two_world 0]
          r i0 c i2 e
    by (auto simp: two_queue_def)
qed

section \<open>Invariants of the simulation loop\<close>

lemma queue_inv_frame:
  "heap w' = heap w \<Longrightarrow> next_addr w' = next_addr w \<Longrightarrow> queue_inv w' q as = queue_inv w q as"
  by (simp add: queue_inv_def)

lemma arrival_of_frame: "heap w' = heap w \<Longrightarrow> arrival_of w' = arrival_of w"
  by (simp add: arrival_of_def fun_eq_iff)

lemma qs_inv_frame:
  "heap w' = heap w \<Longrightarrow> next_addr w' = next_addr w \<Longrightarrow> stderr w' = stderr w \<Longrightarrow>
   qs_inv w0 b arrived q st w' = qs_inv w0 b arrived q st w"
  by (simp add: qs_inv_def drops_def queue_inv_def arrival_of_def)

lemma qs_inv_mono:
  assumes "qs_inv w0 b arrived q st w" "b \<le> b'"
  shows "qs_inv w0 b' arrived q st w"
proof -
  from assms(1) obtain as where q: "queue_inv w q as"
    and ar: "\<forall>a\<in>set as. 0 \<le> arrival_of w a \<and> arrival_of w a \<le> b"
    and re: "\<forall>e\<in>set (recorded st). \<exists>v. e = Some v \<and> 0 \<le> v \<and> v \<le> b"
    by (auto simp: qs_inv_def)
  have "\<forall>a\<in>set as. 0 \<le> arrival_of w a \<and> arrival_of w a \<le> b'"
    using ar assms(2) by force
  moreover have "\<forall>e\<in>set (recorded st). \<exists>v. e = Some v \<and> 0 \<le> v \<and> v \<le> b'"
    using re assms(2) by force
  ultimately show ?thesis using assms(1) q unfolding qs_inv_def by blast
qed

lemma add_wait_time_cases:
  assumes ok: "storage_ok st" and a: "add_wait_time st wt w = Inr (st', w')"
  shows "(st' = st \<and> count st = capacity st \<and> \<not> alloc_ok w (alloc_pos w) \<and>
          w' = w\<lparr>alloc_pos := alloc_pos w + 1,
                 stderr := stderr w @ [''Failed to re-allocate memory for wait time array'']\<rparr>) \<or>
         (count st' = count st + 1 \<and> recorded st' = recorded st @ [Some wt] \<and> storage_ok st' \<and>
          (w' = w \<or> w' = w\<lparr>alloc_pos := alloc_pos w + 1\<rparr>))"
proof -
  have full: "count st = capacity st \<Longrightarrow> INT_MIN \<le> capacity st * 2 \<and> capacity st * 2 \<le> INT_MAX"
    using a by (auto simp: add_wait_time_def bind_err_Inr_iff c_int_Inr_iff)
  consider (room) "count st \<noteq> capacity st"
    | (grow) "count st = capacity st" "alloc_ok w (alloc_pos w)"
    | (fail) "count st = capacity st" "\<not> alloc_ok w (alloc_pos w)"
    by blast
  then show ?thesis
  proof cases
    case room
    then have go: "count st \<noteq> capacity st \<or> (capacity st * 2 \<le> INT_MAX \<and> alloc_ok w (alloc_pos w))"
      by simp
    from add_wait_time_append[OF ok go, of wt] a
    have "count st' = count st + 1 \<and> recorded st' = recorded st @ [Some wt] \<and> storage_ok st'"
      by auto
    moreover have "w' = w" using add_wait_time_room[OF ok room, of wt w] a by simp
    ultimately show ?thesis by blast
  next
    case grow
    then have go: "count st \<noteq> capacity st \<or> (capacity st * 2 \<le> INT_MAX \<and> alloc_ok w (alloc_pos w))"
      using full by simp
    from add_wait_time_append[OF ok go, of wt] a
    have "count st' = count st + 1 \<and> recorded st' = recorded st @ [Some wt] \<and> storage_ok st'"
      by auto
    moreover have "w' = w\<lparr>alloc_pos := alloc_pos w + 1\<rparr>"
      using add_wait_time_grow[OF ok grow(1) _ grow(2), of wt] full grow(1) a by simp
    ultimately show ?thesis by blast
  next
    case fail
    have "add_wait_time st wt w =
          Inr (st, w\<lparr>alloc_pos := alloc_pos w + 1,
                     stderr := stderr w @ [''Failed to re-allocate memory for wait time array'']\<rparr>)"
      using add_wait_time_fail[OF fail(1) _ _ fail(2), of wt] full fail(1) by simp
    with a fail show ?thesis by simp
  qed
qed

lemma enqueue_qs_inv:
  assumes i: "qs_inv w0 b arrived q st w" and e: "enqueue q m w = Inr (q', w')"
    and m: "0 \<le> m" "m \<le> b"
  shows "qs_inv w0 b (arrived + 1) q' st w'"
proof -
  from i obtain as where q: "queue_inv w q as"
    and ar: "\<forall>a\<in>set as. 0 \<le> arrival_of w a \<and> arrival_of w a \<le> b"
    by (auto simp: qs_inv_def)
  from enqueue_inv[OF q e] obtain h where
    q': "queue_inv w' q' (as @ [next_addr w])" and
    n: "arrival_of w' (next_addr w) = m" and
    o: "\<forall>a\<in>set as. arrival_of w' a = arrival_of w a" and
    w': "w' = w\<lparr>heap := h, next_addr := next_addr w + 1, alloc_pos := alloc_pos w + 1\<rparr>"
    by blast
  have cc: "customer_count q' = customer_count q + 1" using q q' by (simp add: queue_inv_def)
  have dr: "drops w0 w' = drops w0 w" by (simp add: w' drops_def)
  have "\<forall>a\<in>set (as @ [next_addr w]). 0 \<le> arrival_of w' a \<and> arrival_of w' a \<le> b"
  proof
    fix a assume "a \<in> set (as @ [next_addr w])"
    then consider "a \<in> set as" | "a = next_addr w" by auto
    then show "0 \<le> arrival_of w' a \<and> arrival_of w' a \<le> b"
      using ar n o m by cases simp_all
  qed
  with q' have 1: "\<exists>as. queue_inv w' q' as \<and>
      (\<forall>a\<in>set as. 0 \<le> arrival_of w' a \<and> arrival_of w' a \<le> b)" by blast
  have 2: "arrived + 1 = count st + customer_count q' + drops w0 w'"
    using i cc dr by (simp add: qs_inv_def)
  from i have 3: "storage_ok st"
    and 4: "\<forall>e\<in>set (recorded st). \<exists>v. e = Some v \<and> 0 \<le> v \<and> v \<le> b"
    by (simp_all add: qs_inv_def)
  show ?thesis unfolding qs_inv_def using 1 2 3 4 by (intro conjI)
qed

lemma enqueue_arrivals_qs_inv:
  "qs_inv w0 b arrived q st w \<Longrightarrow> enqueue_arrivals n q m w = Inr (q', w') \<Longrightarrow> 0 \<le> m \<Longrightarrow> m \<le> b \<Longrightarrow>
   qs_inv w0 b (arrived + int n) q' st w'"
proof (induction n arbitrary: arrived q w)
  case 0
  then show ?case by simp
next
  case (Suc n)
  from Suc.prems(2) obtain q1 w1 where e: "enqueue q m w = Inr (q1, w1)"
    and r: "enqueue_arrivals n q1 m w1 = Inr (q', w')"
    by (auto simp: bind_err_Inr_iff)
  have "qs_inv w0 b (arrived + 1) q1 st w1"
    using enqueue_qs_inv[OF Suc.prems(1) e] Suc.prems by simp
  from Suc.IH[OF this r] Suc.prems show ?case by (simp add: add.assoc)
qed

lemma assign_teller_idle:
  "is_busy t \<noteq> 0 \<or> is_empty q \<Longrightarrow> assign_teller cm t q st w = Inr (t, q, st, w)"
  by (auto simp: assign_teller_def)

lemma assign_teller_elim:
  assumes "assign_teller cm t q st w = Inr (t', q', st', w')"
  obtains (idle) "is_busy t \<noteq> 0 \<or> is_empty q" "t' = t" "q' = q" "st' = st" "w' = w"
  | (assign) a c w1 where "is_busy t = 0" "\<not> is_empty q"
      "dequeue q w = Inr (Some a, q')" "heap w a = Some c"
      "INT_MIN \<le> cm - arrival_minute c" "cm - arrival_minute c \<le> INT_MAX"
      "add_wait_time st (cm - arrival_minute c) w = Inr (st', w1)"
      "t' = t\<lparr>is_busy := 1, remaining_service_time := fst (get_service_time w1)\<rparr>"
      "w' = free_Customer a (snd (get_service_time w1))"
proof -
  let ?go = "is_busy t = 0 \<and> \<not> is_empty q"
  show ?thesis
  proof (cases ?go)
    case False
    then show ?thesis using assms idle by (auto simp: assign_teller_def)
  next
    case True
    with assms obtain p q1 where d: "dequeue q w = Inr (p, q1)"
      by (auto simp: assign_teller_def bind_err_Inr_iff)
    with assms True obtain a where p: "p = Some a"
      by (cases p) (auto simp: assign_teller_def)
    with assms True d obtain c where c: "heap w a = Some c"
      by (cases "heap w a") (auto simp: assign_teller_def)
    from assms True d p c obtain w1 where
      "INT_MIN \<le> cm - arrival_minute c" "cm - arrival_minute c \<le> INT_MAX"
      "add_wait_time st (cm - arrival_minute c) w = Inr (st', w1)"
      "t' = t\<lparr>is_busy := 1, remaining_service_time := fst (get_service_time w1)\<rparr>"
      "w' = free_Customer a (snd (get_service_time w1))" "q1 = q'"
      by (auto simp: assign_teller_def bind_err_Inr_iff c_int_Inr_iff split_beta)
    with True d p c show ?thesis using assign by blast
  qed
qed

lemma get_service_time_frame:
  "snd (get_service_time w) = w\<lparr>rand_pos := rand_pos w + 1\<rparr>"
  by (simp add: get_service_time_def rand_def)

lemma get_service_time_range:
  "MIN_SERVICE_TIME \<le> fst (get_service_time w) \<and> fst (get_service_time w) \<le> MAX_SERVICE_TIME"
  by (simp add: get_service_time_def rand_def MIN_SERVICE_TIME_def MAX_SERVICE_TIME_def)

text \<open>What an assignment does to the queue, the storage and the tally.\<close>

lemma assign_teller_qs_inv:
  assumes i: "qs_inv w0 m arrived q st w"
    and a: "assign_teller m t q st w = Inr (t', q', st', w')"
  shows "qs_inv w0 m arrived q' st' w'"
proof -
  from a show ?thesis
  proof (cases rule: assign_teller_elim)
    case idle
    with i show ?thesis by simp
  next
    case (assign a c w1)
    note ne = assign(2) and d = assign(3) and c = assign(4) and add = assign(7) and w' = assign(9)
    from i obtain as where q: "queue_inv w q as"
      and ar: "\<forall>a\<in>set as. 0 \<le> arrival_of w a \<and> arrival_of w a \<le> m"
      and ok: "storage_ok st"
      and re: "\<forall>e\<in>set (recorded st). \<exists>v. e = Some v \<and> 0 \<le> v \<and> v \<le> m"
      and tot: "arrived = count st + customer_count q + drops w0 w"
      by (auto simp: qs_inv_def)
    from ne q obtain b bs where as: "as = b # bs"
      using queue_inv_empty_iff[OF q] by (cases as) auto
    from dequeue_inv[OF q[unfolded as]] d obtain
      ba: "b = a" and q1: "queue_inv (free_Customer a w) q' bs"
      and q1': "queue_inv w q' bs"
      and keep: "\<forall>x\<in>set bs. arrival_of (free_Customer a w) x = arrival_of w x"
      by auto
    have wt: "arrival_of w a = arrival_minute c" using c by (simp add: arrival_of_def)
    have wt0: "0 \<le> m - arrival_minute c" "m - arrival_minute c \<le> m"
      using ar as ba wt by auto
    have cc: "customer_count q' = customer_count q - 1"
      using q q1' as by (simp add: queue_inv_def)
    have hp: "heap w' = heap (free_Customer a w)" "next_addr w' = next_addr w"
      and se: "stderr w' = stderr w1"
      and hp1: "heap w1 = heap w" "next_addr w1 = next_addr w"
      using add_wait_time_cases[OF ok add]
      by (auto simp: w' get_service_time_frame free_Customer_def)
    have qi: "queue_inv w' q' bs"
      using q1 hp by (simp add: queue_inv_def free_Customer_def)
    have "\<forall>x\<in>set bs. 0 \<le> arrival_of w' x \<and> arrival_of w' x \<le> m"
    proof
      fix x assume x: "x \<in> set bs"
      have "arrival_of w' x = arrival_of (free_Customer a w) x"
        using hp by (simp add: arrival_of_def)
      also have "\<dots> = arrival_of w x" using keep x by simp
      finally show "0 \<le> arrival_of w' x \<and> arrival_of w' x \<le> m" using ar x as by simp
    qed
    with qi have 1: "\<exists>as. queue_inv w' q' as \<and>
        (\<forall>a\<in>set as. 0 \<le> arrival_of w' a \<and> arrival_of w' a \<le> m)" by blast
    from add_wait_time_cases[OF ok add] consider
      (dropped) "st' = st" "stderr w1 = stderr w @ [''Failed to re-allocate memory for wait time array'']"
      | (appended) "count st' = count st + 1" "storage_ok st'" "stderr w1 = stderr w"
          "recorded st' = recorded st @ [Some (m - arrival_minute c)]"
      by auto
    then have 2: "storage_ok st' \<and>
             (\<forall>e\<in>set (recorded st'). \<exists>v. e = Some v \<and> 0 \<le> v \<and> v \<le> m) \<and>
             count st' + drops w0 w1 = count st + drops w0 w + 1"
    proof cases
      case dropped
      then show ?thesis using ok re by (simp add: drops_def)
    next
      case appended
      then show ?thesis using re wt0 by (auto simp: drops_def)
    qed
    have 3: "arrived = count st' + customer_count q' + drops w0 w'"
      using 2 tot cc se by (simp add: drops_def)
    show ?thesis unfolding qs_inv_def using 1 2 3 by (intro conjI) simp_all
  qed
qed

lemma assign_tellers_qs_inv:
  "qs_inv w0 m arrived q st w \<Longrightarrow> assign_tellers m ts q st w = Inr (ts', q', st', w') \<Longrightarrow>
   qs_inv w0 m arrived q' st' w'"
proof (induction ts arbitrary: q st w ts')
  case Nil
  then show ?case by simp
next
  case (Cons t ts)
  from Cons.prems(2) obtain t1 q1 st1 w1 ts1 where
    a: "assign_teller m t q st w = Inr (t1, q1, st1, w1)" and
    r: "assign_tellers m ts q1 st1 w1 = Inr (ts1, q', st', w')"
    by (auto simp: bind_err_Inr_iff)
  from Cons.IH[OF assign_teller_qs_inv[OF Cons.prems(1) a] r] show ?case .
qed

lemma tick_teller_inv:
  "tick_teller t = Inr t' \<Longrightarrow> teller_inv t \<Longrightarrow> teller_inv t'"
  by (auto simp: tick_teller_def teller_inv_def bind_err_Inr_iff c_int_Inr_iff Let_def
           split: if_splits)

lemma tick_tellers_inv:
  "tick_tellers ts = Inr ts' \<Longrightarrow> \<forall>t\<in>set ts. teller_inv t \<Longrightarrow> \<forall>t\<in>set ts'. teller_inv t"
  by (induction ts arbitrary: ts') (auto simp: bind_err_Inr_iff dest: tick_teller_inv)

lemma assign_teller_inv:
  assumes "assign_teller cm t q st w = Inr (t', q', st', w')" "teller_inv t"
  shows "teller_inv t'"
  using assms by (cases rule: assign_teller_elim) (auto simp: teller_inv_def)

lemma assign_tellers_inv:
  "assign_tellers cm ts q st w = Inr (ts', q', st', w') \<Longrightarrow> \<forall>t\<in>set ts. teller_inv t
     \<Longrightarrow> \<forall>t\<in>set ts'. teller_inv t"
proof (induction ts arbitrary: ts' q st w)
  case Nil
  then show ?case by simp
next
  case (Cons t ts)
  from Cons.prems(1) obtain t1 q1 st1 w1 ts1 where
    a: "assign_teller cm t q st w = Inr (t1, q1, st1, w1)" and
    r: "assign_tellers cm ts q1 st1 w1 = Inr (ts1, q', st', w')" and
    e: "ts' = t1 # ts1"
    by (auto simp: bind_err_Inr_iff)
  have "teller_inv t1" using assign_teller_inv[OF a] Cons.prems(2) by simp
  moreover have "\<forall>t\<in>set ts1. teller_inv t" using Cons.IH[OF r] Cons.prems(2) by simp
  ultimately show ?case by (simp add: e)
qed

text \<open>The Poisson loop only draws random numbers, and counts upwards.\<close>

lemma poisson_loop_frame:
  "poisson_loop fp L p k w = Inr (n, w') \<Longrightarrow>
   k \<le> n \<and> (\<exists>j. w' = w\<lparr>rand_pos := j\<rparr>)"
proof (induction fp L p k w rule: poisson_loop.induct)
  case (1 fp L p k w)
  let ?u = "fp_div fp (fp_of_int fp (int (fst (rand w)))) (fp_of_int fp (RAND_MAX fp))"
  let ?p1 = "fp_mul fp p ?u"
  from "1.prems" have c: "c_int (k + 1) = Inr (k + 1)"
    by (subst (asm) poisson_loop.simps) (auto simp: c_int_def split: sum.splits if_splits)
  show ?case
  proof (cases "fp_gt fp ?p1 L")
    case True
    with "1.prems" c have r: "poisson_loop fp L ?p1 (k + 1) (snd (rand w)) = Inr (n, w')"
      by (subst (asm) poisson_loop.simps) (simp add: split_beta Let_def)
    from "1.IH"[OF c _ refl refl True r] show ?thesis
      by (auto simp: rand_def)
  next
    case False
    with "1.prems" c show ?thesis
      by (subst (asm) poisson_loop.simps) (auto simp: split_beta Let_def rand_def)
  qed
qed

lemma get_poisson_random_frame:
  "get_poisson_random fp lambda w = Inr (n, w') \<Longrightarrow> 0 \<le> n \<and> (\<exists>j. w' = w\<lparr>rand_pos := j\<rparr>)"
  unfolding get_poisson_random_def Let_def by (rule poisson_loop_frame)

lemma sim_minute_cases:
  assumes "sim_minute fp lambda m s w = Inr (s', w')"
  obtains ts1 n w1 q1 w2 where
    "tick_tellers (tellers s) = Inr ts1"
    "get_poisson_random fp lambda w = Inr (n, w1)"
    "c_int (total_arrivals s + n) = Inr (total_arrivals s + n)"
    "enqueue_arrivals (nat n) (bank_queue s) m w1 = Inr (q1, w2)"
    "assign_tellers m ts1 q1 (storage s) w2 =
       Inr (tellers s', bank_queue s', storage s', w')"
    "total_arrivals s' = total_arrivals s + n"
  using assms unfolding sim_minute_def
  by (auto simp: bind_err_Inr_iff c_int_Inr_iff)

lemma sim_minute_inv:
  assumes i: "sim_inv w0 m s w" and m: "0 \<le> m"
    and step: "sim_minute fp lambda m s w = Inr (s', w')"
  shows "sim_inv w0 (m + 1) s' w'"
proof -
  from step obtain ts1 n w1 q1 w2 where
    t: "tick_tellers (tellers s) = Inr ts1" and
    p: "get_poisson_random fp lambda w = Inr (n, w1)" and
    e: "enqueue_arrivals (nat n) (bank_queue s) m w1 = Inr (q1, w2)" and
    a: "assign_tellers m ts1 q1 (storage s) w2 = Inr (tellers s', bank_queue s', storage s', w')" and
    tot: "total_arrivals s' = total_arrivals s + n"
    by (rule sim_minute_cases)
  from get_poisson_random_frame[OF p] obtain j where n0: "0 \<le> n" and w1: "w1 = w\<lparr>rand_pos := j\<rparr>"
    by blast
  have "qs_inv w0 (m - 1) (total_arrivals s) (bank_queue s) (storage s) w1"
    using i qs_inv_frame[of w1 w w0 "m - 1" "total_arrivals s" "bank_queue s" "storage s"]
    by (simp add: sim_inv_def w1)
  then have "qs_inv w0 m (total_arrivals s) (bank_queue s) (storage s) w1"
    by (rule qs_inv_mono) simp
  from enqueue_arrivals_qs_inv[OF this e m] n0
  have "qs_inv w0 m (total_arrivals s') q1 (storage s) w2" by (simp add: tot)
  from assign_tellers_qs_inv[OF this a]
  have 1: "qs_inv w0 (m + 1 - 1) (total_arrivals s') (bank_queue s') (storage s') w'" by simp
  have "\<forall>t\<in>set ts1. teller_inv t" using tick_tellers_inv[OF t] i by (simp add: sim_inv_def)
  from assign_tellers_inv[OF a this] 1 show ?thesis unfolding sim_inv_def by blast
qed

lemma sim_loop_invariant:
  assumes step: "\<And>m s w s' w'. P m s w \<Longrightarrow> 0 \<le> m \<Longrightarrow> m < SIMULATION_MINUTES \<Longrightarrow>
                   sim_minute fp lambda m s w = Inr (s', w') \<Longrightarrow> P (m + 1) s' w'"
  shows "sim_loop fp lambda m s w = Inr (s', w') \<Longrightarrow> P m s w \<Longrightarrow> 0 \<le> m \<Longrightarrow>
         m \<le> SIMULATION_MINUTES \<Longrightarrow> P SIMULATION_MINUTES s' w'"
proof (induction n \<equiv> "nat (SIMULATION_MINUTES - m)" arbitrary: m s w)
  case 0
  then have "m = SIMULATION_MINUTES" by simp
  with 0 show ?case by (subst (asm) sim_loop.simps) simp
next
  case (Suc n)
  then have lt: "m < SIMULATION_MINUTES" by simp
  from Suc.prems(1) lt obtain s1 w1 where
    m: "sim_minute fp lambda m s w = Inr (s1, w1)" and
    l: "sim_loop fp lambda (m + 1) s1 w1 = Inr (s', w')"
    by (subst (asm) sim_loop.simps) (auto simp: bind_err_Inr_iff)
  have "P (m + 1) s1 w1" using step Suc.prems lt m by blast
  moreover have "n = nat (SIMULATION_MINUTES - (m + 1))" using Suc.hyps(2) by simp
  ultimately show ?case using Suc.hyps(1)[OF _ l] Suc.prems lt by simp
qed

lemma run_simulation_unfold:
  "run_simulation fp lambda num_tellers w =
     (if alloc_ok w (alloc_pos w) \<and> alloc_ok w (alloc_pos w + 1) \<and>
         alloc_ok w (alloc_pos w + 2) \<and> alloc_ok w (alloc_pos w + 3)
      then sim_loop fp lambda 0 (initial_sim num_tellers) (started w)
      else Inl Exit_failure)"
  by (simp add: run_simulation_def create_queue_def create_storage_def Let_def printf_def
        srand_def alloc_request_def initial_sim_def started_def eval_nat_numeral)

lemma initial_sim_inv: "sim_inv w 0 (initial_sim num_tellers) (started w)"
  by (simp add: sim_inv_def qs_inv_def initial_sim_def started_def queue_inv_def storage_ok_def
        recorded_def drops_def teller_inv_def INITIAL_STORAGE_CAPACITY_def INT_MAX_def)

lemma run_simulation_inv:
  assumes "run_simulation fp lambda num_tellers w = Inr (s', w')"
  shows "sim_inv w SIMULATION_MINUTES s' w'"
proof -
  from assms have l: "sim_loop fp lambda 0 (initial_sim num_tellers) (started w) = Inr (s', w')"
    by (simp add: run_simulation_unfold split: if_splits)
  show ?thesis
    by (rule sim_loop_invariant[where P = "sim_inv w", OF _ l initial_sim_inv])
       (auto intro: sim_minute_inv simp: SIMULATION_MINUTES_def)
qed

lemma env_inv_refl: "env_inv w w"
  by (simp add: env_inv_def)

lemma env_inv_frame:
  "env_inv ws w \<Longrightarrow> rand_gen w' = rand_gen w \<Longrightarrow> rand_seed w' = rand_seed w \<Longrightarrow>
   srand_log w' = srand_log w \<Longrightarrow> alloc_ok w' = alloc_ok w \<Longrightarrow> clock w' = clock w \<Longrightarrow>
   stdout w' = stdout w \<Longrightarrow> stderr w' = stderr w \<Longrightarrow> env_inv ws w'"
  by (simp add: env_inv_def)

lemma env_inv_drops: "env_inv ws w \<Longrightarrow> \<exists>k. stderr w = stderr ws @ replicate k realloc_failed \<and>
   drops ws w = int k \<and> (0 < k \<longrightarrow> (\<exists>n. \<not> alloc_ok ws n))"
  by (auto simp: env_inv_def drops_def)

lemma enqueue_frame:
  assumes "enqueue q v w = Inr (q', w')"
  shows "rand_gen w' = rand_gen w \<and> rand_seed w' = rand_seed w \<and> rand_pos w' = rand_pos w \<and>
         srand_log w' = srand_log w \<and> alloc_ok w' = alloc_ok w \<and> clock w' = clock w \<and>
         stdout w' = stdout w \<and> stderr w' = stderr w \<and> alloc_pos w' = alloc_pos w + 1"
  using assms
  by (auto simp: enqueue_def Let_def malloc_Customer_def alloc_request_def bind_err_Inr_iff
           split: if_splits option.splits)

lemma enqueue_env:
  assumes "enqueue q v w = Inr (q', w')" "env_inv ws w"
  shows "env_inv ws w'"
  using enqueue_frame[OF assms(1)] assms(2) by (simp add: env_inv_def)

lemma enqueue_arrivals_env:
  "enqueue_arrivals n q m w = Inr (q', w') \<Longrightarrow> env_inv ws w \<Longrightarrow> env_inv ws w'"
proof (induction n arbitrary: q w)
  case 0
  then show ?case by simp
next
  case (Suc n)
  from Suc.prems(1) obtain q1 w1 where e: "enqueue q m w = Inr (q1, w1)"
    and r: "enqueue_arrivals n q1 m w1 = Inr (q', w')"
    by (auto simp: bind_err_Inr_iff)
  from Suc.IH[OF r enqueue_env[OF e Suc.prems(2)]] show ?case .
qed

lemma add_wait_time_env:
  assumes ok: "storage_ok st" and a: "add_wait_time st wt w = Inr (st', w')" and e: "env_inv ws w"
  shows "env_inv ws w'"
proof -
  from add_wait_time_cases[OF ok a] consider
    (dropped) "\<not> alloc_ok w (alloc_pos w)"
      "w' = w\<lparr>alloc_pos := alloc_pos w + 1, stderr := stderr w @ [realloc_failed]\<rparr>"
    | (kept) "w' = w \<or> w' = w\<lparr>alloc_pos := alloc_pos w + 1\<rparr>"
    unfolding realloc_failed_def by blast
  then show ?thesis
  proof cases
    case dropped
    from e obtain k where k: "stderr w = stderr ws @ replicate k realloc_failed"
      and ao: "alloc_ok w = alloc_ok ws"
      by (auto simp: env_inv_def)
    have "stderr w' = stderr ws @ replicate (Suc k) realloc_failed"
      using k dropped(2) by (simp add: replicate_append_same)
    moreover have "\<exists>n. \<not> alloc_ok ws n" using dropped(1) ao by auto
    ultimately show ?thesis using e dropped(2) unfolding env_inv_def by (simp del: replicate_Suc)
  next
    case kept
    with e show ?thesis by (auto simp: env_inv_def)
  qed
qed

lemma assign_teller_env:
  assumes ok: "storage_ok st" and a: "assign_teller m t q st w = Inr (t', q', st', w')"
    and e: "env_inv ws w"
  shows "env_inv ws w'"
proof -
  from a show ?thesis
  proof (cases rule: assign_teller_elim)
    case idle
    with e show ?thesis by simp
  next
    case (assign a c w1)
    from add_wait_time_env[OF ok assign(7) e] have "env_inv ws w1" .
    then show ?thesis
      by (rule env_inv_frame) (simp_all add: assign(9) free_Customer_def get_service_time_frame)
  qed
qed

lemma assign_tellers_env:
  "qs_inv w0 m arrived q st w \<Longrightarrow> assign_tellers m ts q st w = Inr (ts', q', st', w') \<Longrightarrow>
   env_inv ws w \<Longrightarrow> env_inv ws w'"
proof (induction ts arbitrary: q st w ts')
  case Nil
  then show ?case by simp
next
  case (Cons t ts)
  from Cons.prems(2) obtain t1 q1 st1 w1 ts1 where
    a: "assign_teller m t q st w = Inr (t1, q1, st1, w1)" and
    r: "assign_tellers m ts q1 st1 w1 = Inr (ts1, q', st', w')"
    by (auto simp: bind_err_Inr_iff)
  have ok: "storage_ok st" using Cons.prems(1) by (simp add: qs_inv_def)
  from Cons.IH[OF assign_teller_qs_inv[OF Cons.prems(1) a] r assign_teller_env[OF ok a Cons.prems(3)]]
  show ?case .
qed

lemma sim_minute_env:
  assumes i: "sim_inv w0 m s w" and m: "0 \<le> m"
    and step: "sim_minute fp lambda m s w = Inr (s', w')" and e: "env_inv ws w"
  shows "env_inv ws w'"
proof -
  from step obtain ts1 n w1 q1 w2 where
    p: "get_poisson_random fp lambda w = Inr (n, w1)" and
    en: "enqueue_arrivals (nat n) (bank_queue s) m w1 = Inr (q1, w2)" and
    a: "assign_tellers m ts1 q1 (storage s) w2 = Inr (tellers s', bank_queue s', storage s', w')"
    by (rule sim_minute_cases)
  from get_poisson_random_frame[OF p] obtain j where n0: "0 \<le> n" and w1: "w1 = w\<lparr>rand_pos := j\<rparr>"
    by blast
  have e1: "env_inv ws w1" using e by (simp add: env_inv_def w1)
  have "qs_inv w0 (m - 1) (total_arrivals s) (bank_queue s) (storage s) w1"
    using i qs_inv_frame[of w1 w w0 "m - 1" "total_arrivals s" "bank_queue s" "storage s"]
    by (simp add: sim_inv_def w1)
  then have "qs_inv w0 m (total_arrivals s) (bank_queue s) (storage s) w1"
    by (rule qs_inv_mono) simp
  from enqueue_arrivals_qs_inv[OF this en m]
  have "qs_inv w0 m (total_arrivals s + int (nat n)) q1 (storage s) w2" by simp
  from assign_tellers_env[OF this a enqueue_arrivals_env[OF en e1]] show ?thesis .
qed

section \<open>Example runs\<close>

lemma poisson_zero_draw:
  assumes "rand_gen w (rand_seed w) (rand_pos w) = 0"
  shows "get_poisson_random real_platform lambda w = Inr (0, w\<lparr>rand_pos := rand_pos w + 1\<rparr>)"
  using assms
  by (simp add: get_poisson_random_def poisson_loop.simps c_int_def INT_MIN_def INT_MAX_def
        rand_def real_platform_def not_less [symmetric] del: not_less)

lemma assign_tellers_empty:
  "is_empty q \<Longrightarrow> assign_tellers m ts q st w = Inr (ts, q, st, w)"
  by (induction ts) (simp_all add: assign_teller_def)

lemma tick_tellers_idle:
  "\<forall>t\<in>set ts. is_busy t = 0 \<Longrightarrow> tick_tellers ts = Inr ts"
  by (induction ts) (simp_all add: tick_teller_def)

lemma quiet_minute:
  assumes "quiet s w"
  shows "sim_minute real_platform lambda m s w = Inr (s, w\<lparr>rand_pos := rand_pos w + 1\<rparr>)"
proof -
  have t: "tick_tellers (tellers s) = Inr (tellers s)"
    using assms by (intro tick_tellers_idle) (auto simp: quiet_def idle_teller_def)
  have p: "get_poisson_random real_platform lambda w = Inr (0, w\<lparr>rand_pos := rand_pos w + 1\<rparr>)"
    using assms by (intro poisson_zero_draw) (simp add: quiet_def zero_from_def)
  have c: "c_int (total_arrivals s) = Inr (total_arrivals s)"
    using assms by (simp add: quiet_def c_int_def)
  have e: "is_empty (bank_queue s)" using assms by (simp add: quiet_def)
  show ?thesis
    by (simp add: sim_minute_def t p c assign_tellers_empty[OF e])
qed

lemma quiet_loop:
  "quiet s w \<Longrightarrow> m \<le> SIMULATION_MINUTES \<Longrightarrow>
   sim_loop real_platform lambda m s w =
     Inr (s, w\<lparr>rand_pos := rand_pos w + nat (SIMULATION_MINUTES - m)\<rparr>)"
proof (induction n \<equiv> "nat (SIMULATION_MINUTES - m)" arbitrary: m w)
  case 0
  then show ?case by (subst sim_loop.simps) simp
next
  case (Suc n)
  then have lt: "m < SIMULATION_MINUTES" by simp
  let ?w1 = "w\<lparr>rand_pos := rand_pos w + 1\<rparr>"
  have q1: "quiet s ?w1" using Suc.prems(1) by (simp add: quiet_def zero_from_def)
  have n: "n = nat (SIMULATION_MINUTES - (m + 1))" using Suc.hyps(2) by simp
  have "sim_loop real_platform lambda (m + 1) s ?w1 =
        Inr (s, ?w1\<lparr>rand_pos := rand_pos ?w1 + nat (SIMULATION_MINUTES - (m + 1))\<rparr>)"
    using Suc.hyps(1)[OF n q1] lt by simp
  moreover have "rand_pos ?w1 + nat (SIMULATION_MINUTES - (m + 1)) =
                 rand_pos w + nat (SIMULATION_MINUTES - m)"
    using lt by simp
  ultimately show ?case
    using lt by (subst sim_loop.simps) (simp add: quiet_minute[OF Suc.prems(1)])
qed

lemma enqueue_arrivals_numeral:
  "enqueue_arrivals (numeral k) q m w =
     bind_err (enqueue q m w) (\<lambda>(q1, w1). enqueue_arrivals (pred_numeral k) q1 m w1)"
  by (simp add: numeral_eq_Suc)

lemma replicate_numeral': "replicate (numeral k) x = x # replicate (pred_numeral k) x"
  by (simp add: numeral_eq_Suc)

lemma bind_err_weak_cong: "m = m' \<Longrightarrow> bind_err m f = bind_err m' f"
  by simp

lemma sim_loop_busy:
  "m < SIMULATION_MINUTES \<Longrightarrow> \<not> quiet s w \<Longrightarrow>
   sim_loop fp lambda m s w =
     bind_err (sim_minute fp lambda m s w) (\<lambda>(s1, w1). sim_loop fp lambda (m + 1) s1 w1)"
  by (subst sim_loop.simps) simp

lemma gen_burst_zero_from: "zero_from (gen_burst n) seed p \<longleftrightarrow> n \<le> p"
proof
  assume a: "zero_from (gen_burst n) seed p"
  show "n \<le> p"
  proof (rule ccontr)
    assume "\<not> n \<le> p"
    then have "gen_burst n seed p \<noteq> 0" by (simp add: gen_burst_def)
    with a show False by (simp add: zero_from_def)
  qed
next
  assume "n \<le> p"
  then show "zero_from (gen_burst n) seed p" by (simp add: gen_burst_def zero_from_def)
qed

lemma real_platform_simps:
  "fp_exp real_platform = exp" "fp_neg real_platform = uminus" "fp_one real_platform = 1"
  "fp_of_int real_platform = of_int" "fp_div real_platform = (/)" "fp_mul real_platform = (*)"
  "fp_gt real_platform = (\<lambda>x y. x > y)" "fp_le real_platform = (\<lambda>x y. x \<le> y)"
  "RAND_MAX real_platform = 2147483647"
  by (simp_all add: real_platform_def)

lemmas exec_defs =
  sim_minute_def get_poisson_random_def poisson_loop.simps rand_def c_int_def INT_MIN_def INT_MAX_def
  real_platform_simps enqueue_def malloc_Customer_def alloc_request_def is_empty_def
  tick_teller_def assign_teller_def dequeue_def add_wait_time_def store_wait_time_def
  get_service_time_def free_Customer_def MIN_SERVICE_TIME_def MAX_SERVICE_TIME_def
  initial_sim_def started_def initial_world_def INITIAL_STORAGE_CAPACITY_def Let_def
  enqueue_arrivals_numeral replicate_numeral' SIMULATION_MINUTES_def
  quiet_def gen_burst_zero_from idle_teller_def to_unsigned_def UINT_MAX_def

lemma run_A:
  "\<exists>w'. run_simulation real_platform 1 2 (initial_world (gen_burst 3) (\<lambda>n. True) 0) = Inr (final_A, w')
      \<and> stderr w' = []"
  by (simp add: run_simulation_unfold sim_loop_busy quiet_loop exec_defs final_A_def gen_burst_def
           cong: bind_err_weak_cong)

lemma run_A':
  "\<exists>w'. run_simulation real_platform 1 2 world_A = Inr (final_A, w') \<and> stderr w' = []"
  unfolding world_A_def by (rule run_A)

lemma minute0_A:
  "\<exists>w1. sim_minute real_platform 1 0 (initial_sim 2) (started world_A) = Inr (after_minute0_A, w1)"
  by (simp add: exec_defs after_minute0_A_def world_A_def gen_burst_def cong: bind_err_weak_cong)

lemma assign_two:
  "\<exists>q' st' w'. assign_teller 7 idle_teller two_queue full_storage two_world =
       Inr (\<lparr>is_busy = 1, remaining_service_time = 2\<rparr>, q', st', w') \<and>
     recorded st' = [Some 0, Some 4, Some 4]"
  by (simp add: exec_defs two_queue_def two_world_def full_storage_def recorded_def
        realloc_cells_def cong: bind_err_weak_cong)

lemma qs_inv_two: "qs_inv two_world 7 4 two_queue full_storage two_world"
proof -
  have "queue_inv two_world two_queue [0, 1]"
    by (simp add: queue_inv_def two_world_def two_queue_def INT_MAX_def)
  moreover have "\<forall>a\<in>set [0, 1]. 0 \<le> arrival_of two_world a \<and> arrival_of two_world a \<le> 7"
    by (simp add: arrival_of_def two_world_def initial_world_def)
  ultimately have "\<exists>as. queue_inv two_world two_queue as \<and>
      (\<forall>a\<in>set as. 0 \<le> arrival_of two_world a \<and> arrival_of two_world a \<le> 7)" by blast
  then show ?thesis
    by (simp add: qs_inv_def storage_ok_def recorded_def full_storage_def drops_def two_queue_def
          INT_MAX_def)
qed

section \<open>Properties of a run\<close>

lemma run_simulation_env:
  assumes "run_simulation fp lambda num_tellers w = Inr (s', w')"
  shows "env_inv (started w) w'"
proof -
  from assms have l: "sim_loop fp lambda 0 (initial_sim num_tellers) (started w) = Inr (s', w')"
    by (simp add: run_simulation_unfold split: if_splits)
  let ?P = "\<lambda>m s x. sim_inv w m s x \<and> env_inv (started w) x"
  have "?P SIMULATION_MINUTES s' w'"
  proof (rule sim_loop_invariant[where P = ?P, OF _ l])
    show "?P 0 (initial_sim num_tellers) (started w)"
      using initial_sim_inv env_inv_refl by blast
  next
    fix m s x s1 x1
    assume p: "?P m s x" and m: "0 \<le> m" and st: "sim_minute fp lambda m s x = Inr (s1, x1)"
    from p have i: "sim_inv w m s x" and e: "env_inv (started w) x" by simp_all
    show "?P (m + 1) s1 x1"
      using sim_minute_inv[OF i m st] sim_minute_env[OF i m st e] by simp
  qed (simp_all add: SIMULATION_MINUTES_def)
  then show ?thesis by simp
qed

lemma sim_minute_teller_inv:
  assumes "sim_minute fp lambda m s w = Inr (s', w')" "\<forall>t\<in>set (tellers s). teller_inv t"
  shows "\<forall>t\<in>set (tellers s'). teller_inv t"
proof -
  from assms(1) obtain ts1 n w1 q1 w2 where
    t: "tick_tellers (tellers s) = Inr ts1" and
    a: "assign_tellers m ts1 q1 (storage s) w2 = Inr (tellers s', bank_queue s', storage s', w')"
    by (rule sim_minute_cases)
  from assign_tellers_inv[OF a tick_tellers_inv[OF t assms(2)]] show ?thesis .
qed

text \<open>
  Claim C6. Every teller that is not busy has remaining service time 0. This holds for the
  tellers as initialised, it is preserved by the decrement-and-free step and by the
  assignment step (which sets a service time of at least \<open>MIN_SERVICE_TIME = 2\<close> on a teller
  it makes busy), hence by every minute of the loop, and it holds for the tellers at the end
  of every run, for any lambda, any number of tellers and any random stream.
\<close>
theorem teller_invariant_holds:
  "(\<forall>t\<in>set (tellers (initial_sim num_tellers)). teller_inv t) \<and>
   (tick_tellers ts = Inr ts1 \<and> (\<forall>t\<in>set ts. teller_inv t) \<longrightarrow> (\<forall>t\<in>set ts1. teller_inv t)) \<and>
   (assign_tellers m ts q st w = Inr (ts2, q2, st2, w2) \<and> (\<forall>t\<in>set ts. teller_inv t) \<longrightarrow>
      (\<forall>t\<in>set ts2. teller_inv t)) \<and>
   MIN_SERVICE_TIME \<le> fst (get_service_time w) \<and> MIN_SERVICE_TIME = 2 \<and>
   (sim_minute fp lambda m s w = Inr (s1, w1) \<and> (\<forall>t\<in>set (tellers s). teller_inv t) \<longrightarrow>
      (\<forall>t\<in>set (tellers s1). teller_inv t)) \<and>
   (run_simulation fp lambda num_tellers w = Inr (s', w') \<longrightarrow>
      (\<forall>t\<in>set (tellers s'). teller_inv t))"
proof (intro conjI impI)
  show "\<forall>t\<in>set (tellers (initial_sim num_tellers)). teller_inv t"
    by (simp add: initial_sim_def teller_inv_def)
  show "MIN_SERVICE_TIME \<le> fst (get_service_time w)"
    using get_service_time_range by blast
  show "MIN_SERVICE_TIME = 2" by (simp add: MIN_SERVICE_TIME_def)
next
  assume "tick_tellers ts = Inr ts1 \<and> (\<forall>t\<in>set ts. teller_inv t)"
  then show "\<forall>t\<in>set ts1. teller_inv t" by (elim conjE) (rule tick_tellers_inv)
next
  assume "assign_tellers m ts q st w = Inr (ts2, q2, st2, w2) \<and> (\<forall>t\<in>set ts. teller_inv t)"
  then show "\<forall>t\<in>set ts2. teller_inv t" by (elim conjE) (rule assign_tellers_inv)
next
  assume "sim_minute fp lambda m s w = Inr (s1, w1) \<and> (\<forall>t\<in>set (tellers s). teller_inv t)"
  then show "\<forall>t\<in>set (tellers s1). teller_inv t" by (elim conjE) (rule sim_minute_teller_inv)
next
  assume "run_simulation fp lambda num_tellers w = Inr (s', w')"
  from run_simulation_inv[OF this] show "\<forall>t\<in>set (tellers s'). teller_inv t"
    by (simp add: sim_inv_def)
qed

theorem teller_invariant_holds_witness:
  "list_all teller_inv (tellers (initial_sim 2)) \<and>
   tick_tellers [\<lparr>is_busy = 1, remaining_service_time = 1\<rparr>,
                 \<lparr>is_busy = 1, remaining_service_time = 3\<rparr>] =
     Inr [idle_teller, \<lparr>is_busy = 1, remaining_service_time = 2\<rparr>] \<and>
   list_all teller_inv [idle_teller, \<lparr>is_busy = 1, remaining_service_time = 2\<rparr>] \<and>
   (\<exists>w1. sim_minute real_platform 1 0 (initial_sim 2) (started world_A) = Inr (after_minute0_A, w1)) \<and>
   list_all teller_inv (tellers after_minute0_A) \<and>
   (\<exists>w'. run_simulation real_platform 1 2 world_A = Inr (final_A, w')) \<and>
   list_all teller_inv (tellers final_A)"
proof -
  let ?busy = "[\<lparr>is_busy = 1, remaining_service_time = 1\<rparr>, \<lparr>is_busy = 1, remaining_service_time = 3\<rparr>]"
  let ?ticked = "[idle_teller, \<lparr>is_busy = 1, remaining_service_time = 2\<rparr>]"
  obtain w' where r: "run_simulation real_platform 1 2 world_A = Inr (final_A, w')"
    using run_A' by blast
  obtain w1 where m: "sim_minute real_platform 1 0 (initial_sim 2) (started world_A) = Inr (after_minute0_A, w1)"
    using minute0_A by blast
  have t: "tick_tellers ?busy = Inr ?ticked"
    by (simp add: tick_teller_def c_int_def INT_MIN_def INT_MAX_def idle_teller_def)
  have b: "\<forall>t\<in>set ?busy. teller_inv t" by (simp add: teller_inv_def)
  have i: "\<forall>t\<in>set (tellers (initial_sim 2)). teller_inv t"
    by (simp add: initial_sim_def teller_inv_def)
  note th = teller_invariant_holds[where num_tellers = 2 and ts = ?busy and ?ts1.0 = ?ticked
      and fp = real_platform and lambda = 1 and m = 0 and s = "initial_sim 2"
      and w = "started world_A" and ?s1.0 = after_minute0_A and ?w1.0 = w1]
  note th2 = teller_invariant_holds[where num_tellers = 2 and fp = real_platform and lambda = 1
      and w = world_A and s' = final_A and w' = w']
  from th t b i m have 1: "\<forall>t\<in>set ?ticked. teller_inv t"
    and 2: "\<forall>t\<in>set (tellers after_minute0_A). teller_inv t" by blast+
  from th2 r have 3: "\<forall>t\<in>set (tellers final_A). teller_inv t" by blast
  from 1 2 3 i t m r show ?thesis by (auto simp: list_all_iff)
qed

lemma assign_teller_wait:
  assumes i: "qs_inv w0 m arrived q st w"
    and a: "assign_teller m t q st w = Inr (t', q', st', w')"
    and go: "is_busy t = 0" "\<not> is_empty q"
  shows "\<exists>a c. front q = Some a \<and> heap w a = Some c \<and> 0 \<le> m - arrival_minute c \<and>
           m - arrival_minute c \<le> m \<and>
           (recorded st' = recorded st @ [Some (m - arrival_minute c)] \<or> st' = st)"
  using a
proof (cases rule: assign_teller_elim)
  case idle
  with go show ?thesis by simp
next
  case (assign a c w1)
  from i obtain as where q: "queue_inv w q as"
    and ar: "\<forall>a\<in>set as. 0 \<le> arrival_of w a \<and> arrival_of w a \<le> m"
    and ok: "storage_ok st"
    by (auto simp: qs_inv_def)
  from go(2) q obtain b bs where as: "as = b # bs"
    using queue_inv_empty_iff[OF q] by (cases as) auto
  from dequeue_inv[OF q[unfolded as]] assign(3) have ba: "b = a" by auto
  have f: "front q = Some a" using q as ba by (simp add: queue_inv_def)
  have "arrival_of w a = arrival_minute c" using assign(4) by (simp add: arrival_of_def)
  then have w0: "0 \<le> m - arrival_minute c" "m - arrival_minute c \<le> m"
    using ar as ba by auto
  from add_wait_time_cases[OF ok assign(7)]
  have "recorded st' = recorded st @ [Some (m - arrival_minute c)] \<or> st' = st" by blast
  with f assign(4) w0 show ?thesis by blast
qed

text \<open>
  Claim C9. The loop invariant \<open>sim_inv\<close> holds when the loop is entered and is preserved
  by every minute. It says that at the head of minute \<open>m\<close> every queued customer has an
  arrival minute in \<open>0..m-1\<close> and every recorded wait time is non-negative. During minute
  \<open>m\<close>, after the arrivals, the wait time computed for the customer at the front,
  \<open>m - arrival_minute c\<close>, is non-negative, and it is the value appended to the storage
  (unless the storage could not grow). At the end of a run every recorded wait time lies
  in \<open>0..479\<close>.
\<close>
theorem wait_times_never_negative:
  "sim_inv w0 0 (initial_sim num_tellers) (started w0) \<and>
   (sim_inv w0 m s w \<and> 0 \<le> m \<and> sim_minute fp lambda m s w = Inr (s1, w1) \<longrightarrow>
      sim_inv w0 (m + 1) s1 w1) \<and>
   (sim_inv w0 m s w \<longrightarrow>
      (\<exists>as. queue_inv w (bank_queue s) as \<and>
            (\<forall>a\<in>set as. 0 \<le> arrival_of w a \<and> arrival_of w a < m)) \<and>
      (\<forall>e\<in>set (recorded (storage s)). \<exists>v. e = Some v \<and> 0 \<le> v)) \<and>
   (qs_inv w0 m arrived q st w \<and> assign_teller m t q st w = Inr (t', q', st', w') \<and>
    is_busy t = 0 \<and> \<not> is_empty q \<longrightarrow>
      (\<exists>a c. front q = Some a \<and> heap w a = Some c \<and> 0 \<le> m - arrival_minute c \<and>
         (recorded st' = recorded st @ [Some (m - arrival_minute c)] \<or> st' = st))) \<and>
   (run_simulation fp lambda num_tellers w = Inr (s', w'') \<longrightarrow>
      (\<forall>e\<in>set (recorded (storage s')). \<exists>v. e = Some v \<and> 0 \<le> v \<and> v < SIMULATION_MINUTES))"
proof (intro conjI impI)
  show "sim_inv w0 0 (initial_sim num_tellers) (started w0)" by (rule initial_sim_inv)
next
  assume "sim_inv w0 m s w \<and> 0 \<le> m \<and> sim_minute fp lambda m s w = Inr (s1, w1)"
  then show "sim_inv w0 (m + 1) s1 w1" by (elim conjE) (rule sim_minute_inv)
next
  assume i: "sim_inv w0 m s w"
  then obtain as where "queue_inv w (bank_queue s) as"
    "\<forall>a\<in>set as. 0 \<le> arrival_of w a \<and> arrival_of w a \<le> m - 1"
    by (auto simp: sim_inv_def qs_inv_def)
  then show "\<exists>as. queue_inv w (bank_queue s) as \<and>
      (\<forall>a\<in>set as. 0 \<le> arrival_of w a \<and> arrival_of w a < m)"
    by (intro exI[of _ as]) auto
  from i show "\<forall>e\<in>set (recorded (storage s)). \<exists>v. e = Some v \<and> 0 \<le> v"
    unfolding sim_inv_def qs_inv_def by blast
next
  assume "qs_inv w0 m arrived q st w \<and> assign_teller m t q st w = Inr (t', q', st', w') \<and>
    is_busy t = 0 \<and> \<not> is_empty q"
  then have "\<exists>a c. front q = Some a \<and> heap w a = Some c \<and> 0 \<le> m - arrival_minute c \<and>
           m - arrival_minute c \<le> m \<and>
           (recorded st' = recorded st @ [Some (m - arrival_minute c)] \<or> st' = st)"
    by (elim conjE) (rule assign_teller_wait)
  then show "\<exists>a c. front q = Some a \<and> heap w a = Some c \<and> 0 \<le> m - arrival_minute c \<and>
         (recorded st' = recorded st @ [Some (m - arrival_minute c)] \<or> st' = st)"
    by blast
next
  assume "run_simulation fp lambda num_tellers w = Inr (s', w'')"
  from run_simulation_inv[OF this]
  have "\<forall>e\<in>set (recorded (storage s')). \<exists>v. e = Some v \<and> 0 \<le> v \<and> v \<le> SIMULATION_MINUTES - 1"
    unfolding sim_inv_def qs_inv_def by blast
  then show "\<forall>e\<in>set (recorded (storage s')). \<exists>v. e = Some v \<and> 0 \<le> v \<and> v < SIMULATION_MINUTES"
    by force
qed

theorem wait_times_never_negative_witness:
  "sim_inv world_A 0 (initial_sim 2) (started world_A) \<and>
   (\<exists>w1. sim_minute real_platform 1 0 (initial_sim 2) (started world_A) = Inr (after_minute0_A, w1) \<and>
      sim_inv world_A 1 after_minute0_A w1 \<and>
      (\<exists>as. queue_inv w1 (bank_queue after_minute0_A) as \<and>
         list_all (\<lambda>a. 0 \<le> arrival_of w1 a \<and> arrival_of w1 a < 1) as)) \<and>
   (\<exists>t' q' st' w' a c.
      assign_teller 7 idle_teller two_queue full_storage two_world = Inr (t', q', st', w') \<and>
      front two_queue = Some a \<and> heap two_world a = Some c \<and> 0 \<le> 7 - arrival_minute c \<and>
      recorded st' = recorded full_storage @ [Some (7 - arrival_minute c)]) \<and>
   (\<exists>w'. run_simulation real_platform 1 2 world_A = Inr (final_A, w')) \<and>
   list_all (\<lambda>e. \<exists>v. e = Some v \<and> 0 \<le> v \<and> v < SIMULATION_MINUTES) (recorded (storage final_A))"
proof -
  obtain w' where r: "run_simulation real_platform 1 2 world_A = Inr (final_A, w')"
    using run_A' by blast
  obtain w1 where m: "sim_minute real_platform 1 0 (initial_sim 2) (started world_A) = Inr (after_minute0_A, w1)"
    using minute0_A by blast
  obtain q' st' x' where a: "assign_teller 7 idle_teller two_queue full_storage two_world =
       Inr (\<lparr>is_busy = 1, remaining_service_time = 2\<rparr>, q', st', x')"
    and rec: "recorded st' = [Some 0, Some 4, Some 4]"
    using assign_two by blast
  have ne: "is_busy idle_teller = 0" "\<not> is_empty two_queue" "st' \<noteq> full_storage"
    using rec by (auto simp: idle_teller_def is_empty_def two_queue_def recorded_def full_storage_def)
  note th = wait_times_never_negative[where ?w0.0 = world_A and num_tellers = 2
      and fp = real_platform and lambda = 1 and m = 0 and s = "initial_sim 2"
      and w = "started world_A" and ?s1.0 = after_minute0_A and ?w1.0 = w1
      and arrived = 0 and q = two_queue and st = full_storage and t = idle_teller
      and t' = idle_teller and q' = two_queue and st' = full_storage and w' = w1
      and s' = final_A and w'' = w1]
  from th m have i0: "sim_inv world_A 0 (initial_sim 2) (started world_A)"
    and i1: "sim_inv world_A 1 after_minute0_A w1" by simp_all
  note th1 = wait_times_never_negative[where ?w0.0 = world_A and m = 1 and s = after_minute0_A
      and w = w1 and fp = real_platform and lambda = 1 and num_tellers = 2
      and ?s1.0 = final_A and ?w1.0 = w1 and arrived = 0 and q = two_queue
      and st = full_storage and t = idle_teller and t' = idle_teller and q' = two_queue
      and st' = full_storage and w' = w1 and s' = final_A and w'' = w1]
  from th1 i1 obtain as where q: "queue_inv w1 (bank_queue after_minute0_A) as"
    "\<forall>a\<in>set as. 0 \<le> arrival_of w1 a \<and> arrival_of w1 a < 1" by blast
  note th2 = wait_times_never_negative[where ?w0.0 = two_world and m = 7 and arrived = 4
      and q = two_queue and st = full_storage and w = two_world and t = idle_teller
      and t' = "\<lparr>is_busy = 1, remaining_service_time = 2\<rparr>" and q' = q' and st' = st' and w' = x'
      and fp = real_platform and lambda = 1 and num_tellers = 2 and s = final_A
      and ?s1.0 = final_A and ?w1.0 = w1 and s' = final_A and w'' = w1]
  from th2 qs_inv_two a ne obtain b c where
    f: "front two_queue = Some b" "heap two_world b = Some c" "0 \<le> 7 - arrival_minute c"
       "recorded st' = recorded full_storage @ [Some (7 - arrival_minute c)]"
    by blast
  note th3 = wait_times_never_negative[where fp = real_platform and lambda = 1
      and num_tellers = 2 and w = world_A and s' = final_A and w'' = w'
      and ?w0.0 = world_A and m = 0 and s = final_A and ?s1.0 = final_A and ?w1.0 = w1
      and arrived = 0 and q = two_queue and st = full_storage and t = idle_teller
      and t' = idle_teller and q' = two_queue and st' = full_storage and w' = w1]
  from th3 r have
    4: "\<forall>e\<in>set (recorded (storage final_A)). \<exists>v. e = Some v \<and> 0 \<le> v \<and> v < SIMULATION_MINUTES"
    by blast
  from q have 2: "\<exists>as. queue_inv w1 (bank_queue after_minute0_A) as \<and>
         list_all (\<lambda>a. 0 \<le> arrival_of w1 a \<and> arrival_of w1 a < 1) as"
    by (auto simp: list_all_iff)
  from a f have 3: "\<exists>t' q' st' w' a c.
      assign_teller 7 idle_teller two_queue full_storage two_world = Inr (t', q', st', w') \<and>
      front two_queue = Some a \<and> heap two_world a = Some c \<and> 0 \<le> 7 - arrival_minute c \<and>
      recorded st' = recorded full_storage @ [Some (7 - arrival_minute c)]" by blast
  from 4 have 5: "list_all (\<lambda>e. \<exists>v. e = Some v \<and> 0 \<le> v \<and> v < SIMULATION_MINUTES)
      (recorded (storage final_A))" by (simp add: list_all_iff)
  from i0 m i1 2 3 r 5 show ?thesis by blast
qed

lemma assign_teller_tally:
  assumes q: "queue_inv w q as" and ok: "storage_ok st"
    and a: "assign_teller m t q st w = Inr (t', q', st', w')"
  shows "(t' = t \<and> customer_count q' = customer_count q \<and> count st' = count st \<and>
          stderr w' = stderr w) \<or>
         (is_busy t = 0 \<and> is_busy t' = 1 \<and> customer_count q' = customer_count q - 1 \<and>
          (count st' = count st + 1 \<and> stderr w' = stderr w \<or>
           count st' = count st \<and> stderr w' = stderr w @ [realloc_failed]))"
  using a
proof (cases rule: assign_teller_elim)
  case idle
  then show ?thesis by simp
next
  case (assign a c w1)
  from assign(2) q obtain b bs where as: "as = b # bs"
    using queue_inv_empty_iff[OF q] by (cases as) auto
  from dequeue_inv[OF q[unfolded as]] assign(3) have "queue_inv w q' bs" by auto
  then have cc: "customer_count q' = customer_count q - 1"
    using q as by (simp add: queue_inv_def)
  have se: "stderr w' = stderr w1"
    by (simp add: assign(9) free_Customer_def get_service_time_frame)
  from add_wait_time_cases[OF ok assign(7)]
  have "count st' = count st + 1 \<and> stderr w1 = stderr w \<or>
        count st' = count st \<and> stderr w1 = stderr w @ [realloc_failed]"
    unfolding realloc_failed_def by auto
  with cc se assign(1,8) show ?thesis by simp
qed

text \<open>
  Claim C1, as amended. At the end of a run the customers that arrived are the recorded
  ones, the ones still queued and the \<open>k\<close> ones whose wait time was dropped because the
  storage could not grow; \<open>k\<close> is the number of messages the run wrote to the error stream,
  and it is 0 unless some allocation fails. Every assignment takes exactly one customer
  from the queue and either adds one recorded value or writes one such message; nothing
  else changes the queue's count or the storage's.
\<close>
theorem conservation_up_to_drops:
  "(run_simulation fp lambda num_tellers w = Inr (s, w') \<longrightarrow>
      (\<exists>k. stderr w' = stderr w @ replicate k realloc_failed \<and>
           total_arrivals s - count (storage s) = customer_count (bank_queue s) + int k \<and>
           (0 < k \<longrightarrow> (\<exists>n. \<not> alloc_ok w n)))) \<and>
   (queue_inv x q as \<and> storage_ok st \<and> assign_teller m t q st x = Inr (t', q', st', x') \<longrightarrow>
      (t' = t \<and> customer_count q' = customer_count q \<and> count st' = count st \<and>
       stderr x' = stderr x) \<or>
      (is_busy t = 0 \<and> is_busy t' = 1 \<and> customer_count q' = customer_count q - 1 \<and>
       (count st' = count st + 1 \<and> stderr x' = stderr x \<or>
        count st' = count st \<and> stderr x' = stderr x @ [realloc_failed])))"
proof (intro conjI impI)
  assume r: "run_simulation fp lambda num_tellers w = Inr (s, w')"
  from env_inv_drops[OF run_simulation_env[OF r]] obtain k where
    k: "stderr w' = stderr (started w) @ replicate k realloc_failed"
       "drops (started w) w' = int k" "0 < k \<longrightarrow> (\<exists>n. \<not> alloc_ok (started w) n)"
    by blast
  have d: "drops w w' = drops (started w) w'" by (simp add: drops_def started_def)
  from run_simulation_inv[OF r]
  have "total_arrivals s = count (storage s) + customer_count (bank_queue s) + drops w w'"
    by (simp add: sim_inv_def qs_inv_def)
  with k d show "\<exists>k. stderr w' = stderr w @ replicate k realloc_failed \<and>
           total_arrivals s - count (storage s) = customer_count (bank_queue s) + int k \<and>
           (0 < k \<longrightarrow> (\<exists>n. \<not> alloc_ok w n))"
    by (intro exI[of _ k]) (simp add: started_def)
next
  assume "queue_inv x q as \<and> storage_ok st \<and> assign_teller m t q st x = Inr (t', q', st', x')"
  then show "(t' = t \<and> customer_count q' = customer_count q \<and> count st' = count st \<and>
       stderr x' = stderr x) \<or>
      (is_busy t = 0 \<and> is_busy t' = 1 \<and> customer_count q' = customer_count q - 1 \<and>
       (count st' = count st + 1 \<and> stderr x' = stderr x \<or>
        count st' = count st \<and> stderr x' = stderr x @ [realloc_failed]))"
    by (elim conjE) (rule assign_teller_tally)
qed

theorem conservation_up_to_drops_witness:
  "(\<exists>w'. run_simulation real_platform 1 2 world_A = Inr (final_A, w') \<and> stderr w' = stderr world_A) \<and>
   total_arrivals final_A - count (storage final_A) = customer_count (bank_queue final_A) \<and>
   (\<exists>t' q' st' w'.
      assign_teller 7 idle_teller two_queue full_storage two_world = Inr (t', q', st', w') \<and>
      is_busy t' = 1 \<and> customer_count q' = customer_count two_queue - 1 \<and>
      count st' = count full_storage + 1 \<and> stderr w' = stderr two_world)"
proof -
  obtain w' where r: "run_simulation real_platform 1 2 world_A = Inr (final_A, w')"
    and e: "stderr w' = []"
    using run_A' by blast
  obtain q' st' x' where a: "assign_teller 7 idle_teller two_queue full_storage two_world =
       Inr (\<lparr>is_busy = 1, remaining_service_time = 2\<rparr>, q', st', x')"
    and rec: "recorded st' = [Some 0, Some 4, Some 4]"
    using assign_two by blast
  have qi: "queue_inv two_world two_queue [0, 1]"
    by (simp add: queue_inv_def two_world_def two_queue_def INT_MAX_def)
  have ok: "storage_ok full_storage"
    by (simp add: storage_ok_def full_storage_def INT_MAX_def)
  note th = conservation_up_to_drops[where fp = real_platform and lambda = 1 and num_tellers = 2
      and w = world_A and s = final_A and w' = w' and x = two_world and q = two_queue
      and as = "[0, 1]" and st = full_storage and m = 7 and t = idle_teller
      and t' = "\<lparr>is_busy = 1, remaining_service_time = 2\<rparr>" and q' = q' and st' = st' and x' = x']
  from th r obtain k where k: "stderr w' = stderr world_A @ replicate k realloc_failed"
    "total_arrivals final_A - count (storage final_A) = customer_count (bank_queue final_A) + int k"
    by blast
  from k(1) e have "k = 0" by (simp add: world_A_def initial_world_def)
  with k have 1: "total_arrivals final_A - count (storage final_A) = customer_count (bank_queue final_A)"
    and 0: "stderr w' = stderr world_A" by simp_all
  have len: "length (recorded st') = 3" using rec by simp
  from th qi ok a have
    "is_busy \<lparr>is_busy = 1, remaining_service_time = 2\<rparr> = 1 \<and>
     customer_count q' = customer_count two_queue - 1 \<and>
     (count st' = count full_storage + 1 \<and> stderr x' = stderr two_world \<or>
      count st' = count full_storage \<and> stderr x' = stderr two_world @ [realloc_failed])"
    by (auto simp: idle_teller_def)
  moreover have "count st' \<noteq> count full_storage"
  proof
    assume "count st' = count full_storage"
    then have "length (recorded st') \<le> 2" by (simp add: recorded_def full_storage_def)
    with len show False by simp
  qed
  ultimately have 2: "is_busy \<lparr>is_busy = 1, remaining_service_time = 2\<rparr> = 1 \<and>
     customer_count q' = customer_count two_queue - 1 \<and>
     count st' = count full_storage + 1 \<and> stderr x' = stderr two_world" by blast
  from r 0 1 a 2 show ?thesis by blast
qed

section \<open>The Poisson generator\<close>


lemma poisson_loop_unfold:
  "poisson_loop fp L p k w =
     (if INT_MIN \<le> k + 1 \<and> k + 1 \<le> INT_MAX
      then if fp_gt fp (fp_mul fp p (uniform fp (fst (rand w)))) L
           then poisson_loop fp L (fp_mul fp p (uniform fp (fst (rand w)))) (k + 1) (snd (rand w))
           else Inr (k, snd (rand w))
      else Inl Signed_overflow)"
  by (subst poisson_loop.simps) (simp add: c_int_def uniform_def split_beta Let_def)

lemma rand_iter: "snd (rand w) = w\<lparr>rand_pos := rand_pos w + 1\<rparr>"
  by (simp add: rand_def)

lemma poisson_loop_sound:
  "poisson_loop fp L p k w = Inr (k', w') \<Longrightarrow>
   \<exists>n. k' = k + int n \<and> k + int n < INT_MAX \<and> INT_MIN \<le> k + 1 \<and>
       (\<forall>j. 1 \<le> j \<and> j \<le> n \<longrightarrow> fp_gt fp (running_product fp w p j) L) \<and>
       \<not> fp_gt fp (running_product fp w p (n + 1)) L \<and>
       w' = w\<lparr>rand_pos := rand_pos w + n + 1\<rparr>"
proof (induction fp L p k w rule: poisson_loop.induct)
  case (1 fp L p k w)
  let ?p1 = "fp_mul fp p (uniform fp (fst (rand w)))"
  let ?w1 = "snd (rand w)"
  from "1.prems" have c: "INT_MIN \<le> k + 1" "k + 1 \<le> INT_MAX"
    by (subst (asm) poisson_loop_unfold, simp split: if_splits)+
  then have ci: "c_int (k + 1) = Inr (k + 1)" by (simp add: c_int_def)
  show ?case
  proof (cases "fp_gt fp ?p1 L")
    case True
    with "1.prems" c have r: "poisson_loop fp L ?p1 (k + 1) ?w1 = Inr (k', w')"
      by (subst (asm) poisson_loop_unfold) simp
    have g: "fp_gt fp (fp_mul fp p (fp_div fp (fp_of_int fp (int (fst (rand w))))
                 (fp_of_int fp (RAND_MAX fp)))) L"
      using True by (simp add: uniform_def)
    from "1.IH"[OF ci _ refl refl g] r obtain n where
      n: "k' = k + 1 + int n" "k + 1 + int n < INT_MAX"
         "\<forall>j. 1 \<le> j \<and> j \<le> n \<longrightarrow> fp_gt fp (running_product fp ?w1 ?p1 j) L"
         "\<not> fp_gt fp (running_product fp ?w1 ?p1 (n + 1)) L"
         "w' = ?w1\<lparr>rand_pos := rand_pos ?w1 + n + 1\<rparr>"
      by (auto simp: uniform_def rand_def)
    have "\<forall>j. 1 \<le> j \<and> j \<le> Suc n \<longrightarrow> fp_gt fp (running_product fp w p j) L"
    proof (intro allI impI)
      fix j assume j: "1 \<le> j \<and> j \<le> Suc n"
      show "fp_gt fp (running_product fp w p j) L"
      proof (cases "j = 1")
        case True
        then show ?thesis using \<open>fp_gt fp ?p1 L\<close> by simp
      next
        case False
        with j obtain i where i: "j = Suc i" "1 \<le> i" "i \<le> n" by (cases j) auto
        then show ?thesis using n(3) by simp
      qed
    qed
    moreover have "\<not> fp_gt fp (running_product fp w p (Suc n + 1)) L"
      using n(4) by simp
    moreover have "w' = w\<lparr>rand_pos := rand_pos w + Suc n + 1\<rparr>"
      using n(5) by (simp add: rand_def)
    ultimately show ?thesis using n(1,2) c by (intro exI[of _ "Suc n"]) simp
  next
    case False
    with "1.prems" c have "k' = k" "w' = ?w1"
      by (subst (asm) poisson_loop_unfold, simp)+
    with False c show ?thesis by (intro exI[of _ 0]) (simp add: rand_def)
  qed
qed

lemma poisson_loop_complete:
  "INT_MIN \<le> k + 1 \<Longrightarrow> k + int n < INT_MAX \<Longrightarrow>
   (\<forall>j. 1 \<le> j \<and> j \<le> n \<longrightarrow> fp_gt fp (running_product fp w p j) L) \<Longrightarrow>
   \<not> fp_gt fp (running_product fp w p (n + 1)) L \<Longrightarrow>
   poisson_loop fp L p k w = Inr (k + int n, w\<lparr>rand_pos := rand_pos w + n + 1\<rparr>)"
proof (induction n arbitrary: p k w)
  case 0
  then show ?case by (subst poisson_loop_unfold) (simp add: rand_def)
next
  case (Suc n)
  let ?p1 = "fp_mul fp p (uniform fp (fst (rand w)))"
  let ?w1 = "snd (rand w)"
  have "fp_gt fp (running_product fp w p (Suc 0)) L"
    using Suc.prems(3)[rule_format, of "Suc 0"] by simp
  then have g: "fp_gt fp ?p1 L" by simp
  have a: "\<forall>j. 1 \<le> j \<and> j \<le> n \<longrightarrow> fp_gt fp (running_product fp ?w1 ?p1 j) L"
  proof (intro allI impI)
    fix j assume "1 \<le> j \<and> j \<le> n"
    then have "fp_gt fp (running_product fp w p (Suc j)) L"
      using Suc.prems(3)[rule_format, of "Suc j"] by simp
    then show "fp_gt fp (running_product fp ?w1 ?p1 j) L" by simp
  qed
  have b: "\<not> fp_gt fp (running_product fp ?w1 ?p1 (n + 1)) L"
    using Suc.prems(4) by simp
  have "poisson_loop fp L ?p1 (k + 1) ?w1 =
        Inr (k + 1 + int n, ?w1\<lparr>rand_pos := rand_pos ?w1 + n + 1\<rparr>)"
    using Suc.prems(1,2) by (intro Suc.IH[OF _ _ a b]) simp_all
  then show ?case
    using g Suc.prems(1,2) by (subst poisson_loop_unfold) (simp add: rand_def)
qed

lemma poisson_loop_overflow:
  "k + int n = INT_MAX \<Longrightarrow> INT_MIN \<le> k + 1 \<Longrightarrow>
   (\<forall>j. 1 \<le> j \<and> j \<le> n \<longrightarrow> fp_gt fp (running_product fp w p j) L) \<Longrightarrow>
   poisson_loop fp L p k w = Inl Signed_overflow"
proof (induction n arbitrary: p k w)
  case 0
  then show ?case by (subst poisson_loop_unfold) simp
next
  case (Suc n)
  let ?p1 = "fp_mul fp p (uniform fp (fst (rand w)))"
  let ?w1 = "snd (rand w)"
  have "fp_gt fp (running_product fp w p (Suc 0)) L"
    using Suc.prems(3)[rule_format, of "Suc 0"] by simp
  then have g: "fp_gt fp ?p1 L" by simp
  have a: "\<forall>j. 1 \<le> j \<and> j \<le> n \<longrightarrow> fp_gt fp (running_product fp ?w1 ?p1 j) L"
  proof (intro allI impI)
    fix j assume "1 \<le> j \<and> j \<le> n"
    then have "fp_gt fp (running_product fp w p (Suc j)) L"
      using Suc.prems(3)[rule_format, of "Suc j"] by simp
    then show "fp_gt fp (running_product fp ?w1 ?p1 j) L" by simp
  qed
  have "poisson_loop fp L ?p1 (k + 1) ?w1 = Inl Signed_overflow"
    using Suc.prems(1,2) by (intro Suc.IH[OF _ _ a]) simp_all
  then show ?case
    using g Suc.prems(1,2) by (subst poisson_loop_unfold) simp
qed

lemma poisson_loop_total:
  assumes k: "0 \<le> k" "k \<le> INT_MAX"
  shows "(\<exists>n. k + int n < INT_MAX \<and>
            (\<forall>j. 1 \<le> j \<and> j \<le> n \<longrightarrow> fp_gt fp (running_product fp w p j) L) \<and>
            \<not> fp_gt fp (running_product fp w p (n + 1)) L \<and>
            poisson_loop fp L p k w = Inr (k + int n, w\<lparr>rand_pos := rand_pos w + n + 1\<rparr>)) \<or>
         ((\<forall>j. 1 \<le> j \<and> int j \<le> INT_MAX - k \<longrightarrow> fp_gt fp (running_product fp w p j) L) \<and>
          poisson_loop fp L p k w = Inl Signed_overflow)"
proof (cases "\<forall>j. 1 \<le> j \<and> int j \<le> INT_MAX - k \<longrightarrow> fp_gt fp (running_product fp w p j) L")
  case True
  let ?n = "nat (INT_MAX - k)"
  have "poisson_loop fp L p k w = Inl Signed_overflow"
    using k True by (intro poisson_loop_overflow[where n = ?n]) (auto simp: INT_MIN_def)
  with True show ?thesis by blast
next
  case False
  define stop where "stop j \<longleftrightarrow> 1 \<le> j \<and> \<not> fp_gt fp (running_product fp w p j) L" for j
  from False obtain j0 where j0: "stop j0" "int j0 \<le> INT_MAX - k" by (auto simp: stop_def)
  define m where "m = (LEAST j. stop j)"
  have sm: "stop m" unfolding m_def using j0(1) by (rule LeastI)
  have le: "m \<le> j0" unfolding m_def using j0(1) by (rule Least_le)
  have below: "\<And>j. j < m \<Longrightarrow> \<not> stop j" unfolding m_def by (rule not_less_Least)
  from sm obtain n where n: "m = n + 1" by (cases m) (auto simp: stop_def)
  have 1: "k + int n < INT_MAX" using le j0(2) n by simp
  have 2: "\<forall>j. 1 \<le> j \<and> j \<le> n \<longrightarrow> fp_gt fp (running_product fp w p j) L"
    using below n by (auto simp: stop_def)
  have 3: "\<not> fp_gt fp (running_product fp w p (n + 1)) L" using sm n by (simp add: stop_def)
  have "poisson_loop fp L p k w = Inr (k + int n, w\<lparr>rand_pos := rand_pos w + n + 1\<rparr>)"
    using k 1 2 3 by (intro poisson_loop_complete) (auto simp: INT_MIN_def)
  with 1 2 3 show ?thesis by blast
qed

text \<open>
  Claim C3. \<open>get_poisson_random\<close> returns \<open>k\<close> exactly when \<open>k\<close> is non-negative, the product
  of the first \<open>j\<close> uniform draws is above \<open>exp(-lambda)\<close> for every \<open>j\<close> from 1 to \<open>k\<close>, and
  the product of the first \<open>k + 1\<close> draws is not: it multiplies successive draws until the
  product is no longer above the threshold, has then made \<open>k + 1\<close> draws, and returns the
  number of draws minus 1, which is never negative. The only other outcome is the overflow
  of the counter, when the product stays above the threshold for \<open>INT_MAX\<close> draws. This
  holds for every lambda, every random stream and every double arithmetic.
\<close>
theorem get_poisson_random_knuth:
  "(get_poisson_random fp lambda w = Inr (k, w') \<longleftrightarrow>
      0 \<le> k \<and> k < INT_MAX \<and>
      (\<forall>j. 1 \<le> j \<and> j \<le> nat k \<longrightarrow>
           fp_gt fp (running_product fp w (fp_one fp) j) (fp_exp fp (fp_neg fp lambda))) \<and>
      \<not> fp_gt fp (running_product fp w (fp_one fp) (nat k + 1)) (fp_exp fp (fp_neg fp lambda)) \<and>
      w' = w\<lparr>rand_pos := rand_pos w + nat k + 1\<rparr>) \<and>
   (get_poisson_random fp lambda w = Inl e \<longrightarrow>
      e = Signed_overflow \<and>
      (\<forall>j. 1 \<le> j \<and> int j \<le> INT_MAX \<longrightarrow>
           fp_gt fp (running_product fp w (fp_one fp) j) (fp_exp fp (fp_neg fp lambda))))"
proof -
  let ?L = "fp_exp fp (fp_neg fp lambda)"
  let ?R = "0 \<le> k \<and> k < INT_MAX \<and>
      (\<forall>j. 1 \<le> j \<and> j \<le> nat k \<longrightarrow> fp_gt fp (running_product fp w (fp_one fp) j) ?L) \<and>
      \<not> fp_gt fp (running_product fp w (fp_one fp) (nat k + 1)) ?L \<and>
      w' = w\<lparr>rand_pos := rand_pos w + nat k + 1\<rparr>"
  have A: ?R if "get_poisson_random fp lambda w = Inr (k, w')"
  proof -
    from that have "poisson_loop fp ?L (fp_one fp) 0 w = Inr (k, w')"
      by (simp add: get_poisson_random_def)
    from poisson_loop_sound[OF this] show ?thesis by auto
  qed
  have B: "get_poisson_random fp lambda w = Inr (k, w')" if a: ?R
  proof -
    from a have "poisson_loop fp ?L (fp_one fp) 0 w =
        Inr (0 + int (nat k), w\<lparr>rand_pos := rand_pos w + nat k + 1\<rparr>)"
      by (intro poisson_loop_complete) (auto simp: INT_MIN_def)
    with a show ?thesis by (simp add: get_poisson_random_def)
  qed
  have C: "e = Signed_overflow \<and>
      (\<forall>j. 1 \<le> j \<and> int j \<le> INT_MAX \<longrightarrow> fp_gt fp (running_product fp w (fp_one fp) j) ?L)"
    if "get_poisson_random fp lambda w = Inl e"
  proof -
    from that have l: "poisson_loop fp ?L (fp_one fp) 0 w = Inl e"
      by (simp add: get_poisson_random_def)
    from poisson_loop_total[of 0 fp w "fp_one fp" ?L] l
    have "(\<forall>j. 1 \<le> j \<and> int j \<le> INT_MAX - 0 \<longrightarrow>
             fp_gt fp (running_product fp w (fp_one fp) j) ?L) \<and>
          poisson_loop fp ?L (fp_one fp) 0 w = Inl Signed_overflow"
      by (auto simp: INT_MAX_def)
    with l show ?thesis by simp
  qed
  from A B C show ?thesis by blast
qed

lemma running_product_gen_max:
  "rand_gen w = gen_max \<Longrightarrow> running_product real_platform w p j = p"
proof (induction j arbitrary: w p)
  case 0
  then show ?case by simp
next
  case (Suc j)
  have "rand_gen (snd (rand w)) = gen_max" using Suc.prems by (simp add: rand_def)
  from Suc.IH[OF this] Suc.prems show ?case
    by (simp add: uniform_def rand_def gen_max_def real_platform_simps)
qed

lemma poisson_gen_max:
  "get_poisson_random real_platform 1 (initial_world gen_max (\<lambda>n. True) 0) = Inl Signed_overflow"
proof -
  let ?w = "initial_world gen_max (\<lambda>n. True) 0"
  have g: "rand_gen ?w = gen_max" by (simp add: initial_world_def)
  have "poisson_loop real_platform (exp (- 1)) 1 0 ?w = Inl Signed_overflow"
  proof (rule poisson_loop_overflow[where n = "nat INT_MAX"])
    show "\<forall>j. 1 \<le> j \<and> j \<le> nat INT_MAX \<longrightarrow>
        fp_gt real_platform (running_product real_platform ?w 1 j) (exp (- 1))"
      by (simp add: running_product_gen_max[OF g] real_platform_simps)
  qed (simp_all add: INT_MAX_def INT_MIN_def)
  then show ?thesis by (simp add: get_poisson_random_def real_platform_simps)
qed

lemma poisson_A:
  "get_poisson_random real_platform 1 world_A = Inr (3, world_A\<lparr>rand_pos := 4\<rparr>)"
  by (simp add: get_poisson_random_def poisson_loop.simps rand_def c_int_def INT_MIN_def
        INT_MAX_def real_platform_simps world_A_def initial_world_def gen_burst_def)

theorem get_poisson_random_knuth_witness:
  "get_poisson_random real_platform 1 world_A = Inr (3, world_A\<lparr>rand_pos := 4\<rparr>) \<and>
   fp_gt real_platform (running_product real_platform world_A (fp_one real_platform) 3)
     (fp_exp real_platform (fp_neg real_platform 1)) \<and>
   \<not> fp_gt real_platform (running_product real_platform world_A (fp_one real_platform) 4)
     (fp_exp real_platform (fp_neg real_platform 1)) \<and>
   get_poisson_random real_platform 1 (initial_world gen_max (\<lambda>n. True) 0) = Inl Signed_overflow \<and>
   fp_gt real_platform
     (running_product real_platform (initial_world gen_max (\<lambda>n. True) 0) (fp_one real_platform) 1000)
     (fp_exp real_platform (fp_neg real_platform 1))"
proof -
  note a = get_poisson_random_knuth[where fp = real_platform and lambda = 1 and w = world_A
      and k = 3 and w' = "world_A\<lparr>rand_pos := 4\<rparr>" and e = Signed_overflow]
  note b = get_poisson_random_knuth[where fp = real_platform and lambda = 1
      and w = "initial_world gen_max (\<lambda>n. True) 0" and k = 3 and w' = world_A
      and e = Signed_overflow]
  from a poisson_A have
    1: "\<forall>j. 1 \<le> j \<and> j \<le> nat 3 \<longrightarrow>
          fp_gt real_platform (running_product real_platform world_A (fp_one real_platform) j)
            (fp_exp real_platform (fp_neg real_platform 1))"
    and 2: "\<not> fp_gt real_platform (running_product real_platform world_A (fp_one real_platform) (nat 3 + 1))
            (fp_exp real_platform (fp_neg real_platform 1))"
    by blast+
  from 1 have 3: "fp_gt real_platform (running_product real_platform world_A (fp_one real_platform) 3)
     (fp_exp real_platform (fp_neg real_platform 1))" by simp
  from 2 have 4: "\<not> fp_gt real_platform (running_product real_platform world_A (fp_one real_platform) 4)
     (fp_exp real_platform (fp_neg real_platform 1))" by simp
  from b poisson_gen_max have
    "\<forall>j. 1 \<le> j \<and> int j \<le> INT_MAX \<longrightarrow>
       fp_gt real_platform
         (running_product real_platform (initial_world gen_max (\<lambda>n. True) 0) (fp_one real_platform) j)
         (fp_exp real_platform (fp_neg real_platform 1))"
    by blast
  then have 5: "fp_gt real_platform
     (running_product real_platform (initial_world gen_max (\<lambda>n. True) 0) (fp_one real_platform) 1000)
     (fp_exp real_platform (fp_neg real_platform 1))"
    by (simp add: INT_MAX_def)
  from poisson_A 3 4 poisson_gen_max 5 show ?thesis by blast
qed

section \<open>Input validation\<close>

text \<open>
  Claim C8. When the lambda read is unparseable or not above 0, or the number of tellers
  read is unparseable or not above 0, \<open>main\<close> returns the exit status 1 having only printed
  its prompts and the invalid-input message: the simulation is not run. When both values
  are valid, \<open>main\<close> runs the simulation with them and, when the run returns, exits with
  status 0.
\<close>
theorem main_validates_input:
  "(scanf_lambda = None \<or> (\<exists>l. scanf_lambda = Some l \<and> fp_le fp l (fp_of_int fp 0)) \<longrightarrow>
      main fp scanf_lambda scanf_tellers w =
        Inr (1, w\<lparr>stdout := stdout w @
               [''--- Welcome to the Bank Queue Simulator ---'',
                ''Enter the average number of customers arriving *per minute* (lambda): '',
                ''Invalid input. Please enter a positive number.'']\<rparr>)) \<and>
   (scanf_lambda = Some lambda \<and> \<not> fp_le fp lambda (fp_of_int fp 0) \<and>
    (scanf_tellers = None \<or> (\<exists>n. scanf_tellers = Some n \<and> n \<le> 0)) \<longrightarrow>
      main fp scanf_lambda scanf_tellers w =
        Inr (1, w\<lparr>stdout := stdout w @
               [''--- Welcome to the Bank Queue Simulator ---'',
                ''Enter the average number of customers arriving *per minute* (lambda): '',
                ''Enter the number of tellers working: '',
                ''Invalid input. Please enter a positive number of tellers.'']\<rparr>)) \<and>
   (scanf_lambda = Some lambda \<and> \<not> fp_le fp lambda (fp_of_int fp 0) \<and>
    scanf_tellers = Some num_tellers \<and> 0 < num_tellers \<longrightarrow>
      main fp scanf_lambda scanf_tellers w =
        bind_err
          (run_simulation fp lambda num_tellers
             (w\<lparr>stdout := stdout w @
                [''--- Welcome to the Bank Queue Simulator ---'',
                 ''Enter the average number of customers arriving *per minute* (lambda): '',
                 ''Enter the number of tellers working: '']\<rparr>))
          (\<lambda>(s, w3). Inr (0, w3)))"
  by (auto simp: main_def printf_def Let_def)

theorem main_validates_input_witness:
  "main real_platform None (Some 2) world_A =
     Inr (1, world_A\<lparr>stdout :=
               [''--- Welcome to the Bank Queue Simulator ---'',
                ''Enter the average number of customers arriving *per minute* (lambda): '',
                ''Invalid input. Please enter a positive number.'']\<rparr>) \<and>
   main real_platform (Some 0) (Some 2) world_A =
     Inr (1, world_A\<lparr>stdout :=
               [''--- Welcome to the Bank Queue Simulator ---'',
                ''Enter the average number of customers arriving *per minute* (lambda): '',
                ''Invalid input. Please enter a positive number.'']\<rparr>) \<and>
   main real_platform (Some 1) (Some 0) world_A =
     Inr (1, world_A\<lparr>stdout :=
               [''--- Welcome to the Bank Queue Simulator ---'',
                ''Enter the average number of customers arriving *per minute* (lambda): '',
                ''Enter the number of tellers working: '',
                ''Invalid input. Please enter a positive number of tellers.'']\<rparr>) \<and>
   main real_platform (Some 1) None world_A =
     Inr (1, world_A\<lparr>stdout :=
               [''--- Welcome to the Bank Queue Simulator ---'',
                ''Enter the average number of customers arriving *per minute* (lambda): '',
                ''Enter the number of tellers working: '',
                ''Invalid input. Please enter a positive number of tellers.'']\<rparr>) \<and>
   main real_platform (Some 1) (Some 2) world_A =
     bind_err
       (run_simulation real_platform 1 2
          (world_A\<lparr>stdout :=
             [''--- Welcome to the Bank Queue Simulator ---'',
              ''Enter the average number of customers arriving *per minute* (lambda): '',
              ''Enter the number of tellers working: '']\<rparr>))
       (\<lambda>(s, w3). Inr (0, w3))"
  using main_validates_input[of None real_platform "Some 2" world_A 1 2]
        main_validates_input[of "Some 0" real_platform "Some 2" world_A 0 2]
        main_validates_input[of "Some 1" real_platform "Some 0" world_A 1 0]
        main_validates_input[of "Some 1" real_platform None world_A 1 0]
        main_validates_input[of "Some 1" real_platform "Some 2" world_A 1 2]
  by (simp add: real_platform_simps world_A_def initial_world_def)

section \<open>The mode\<close>

lemma max_val_loop_bounds:
  "m \<le> max_val_loop xs m \<and> (\<forall>x\<in>set xs. x \<le> max_val_loop xs m)"
proof (induction xs arbitrary: m)
  case Nil
  then show ?case by simp
next
  case (Cons x xs)
  from Cons.IH[of "if x > m then x else m"] show ?case by (auto split: if_splits)
qed

lemma populate_counts:
  assumes "\<forall>x\<in>set xs. 0 \<le> x \<and> nat x < length f"
    and "\<forall>i<length f. 0 \<le> f ! i \<and> f ! i + int (count_list xs (int i)) \<le> INT_MAX"
  shows "\<exists>f'. populate xs f = Inr f' \<and> length f' = length f \<and>
           (\<forall>i<length f. f' ! i = f ! i + int (count_list xs (int i)))"
  using assms
proof (induction xs arbitrary: f)
  case Nil
  then show ?case by simp
next
  case (Cons x xs)
  let ?i = "nat x"
  let ?f1 = "f[?i := f ! ?i + 1]"
  have x: "0 \<le> x" "?i < length f" using Cons.prems(1) by auto
  have b: "0 \<le> f ! ?i" "f ! ?i + int (count_list (x # xs) (int ?i)) \<le> INT_MAX"
    using Cons.prems(2) x by auto
  then have c: "c_int (f ! ?i + 1) = Inr (f ! ?i + 1)"
    using x by (simp add: c_int_def INT_MIN_def)
  have 1: "\<forall>y\<in>set xs. 0 \<le> y \<and> nat y < length ?f1" using Cons.prems(1) by simp
  have 2: "\<forall>i<length ?f1. 0 \<le> ?f1 ! i \<and> ?f1 ! i + int (count_list xs (int i)) \<le> INT_MAX"
  proof (intro allI impI)
    fix i assume i: "i < length ?f1"
    then have "0 \<le> f ! i \<and> f ! i + int (count_list (x # xs) (int i)) \<le> INT_MAX"
      using Cons.prems(2) by simp
    then show "0 \<le> ?f1 ! i \<and> ?f1 ! i + int (count_list xs (int i)) \<le> INT_MAX"
      using i x by (cases "i = ?i") (auto simp: nth_list_update split: if_splits)
  qed
  from Cons.IH[OF 1 2] obtain f' where
    f': "populate xs ?f1 = Inr f'" "length f' = length f"
        "\<forall>i<length f. f' ! i = ?f1 ! i + int (count_list xs (int i))"
    by auto
  have "\<forall>i<length f. f' ! i = f ! i + int (count_list (x # xs) (int i))"
  proof (intro allI impI)
    fix i assume i: "i < length f"
    then show "f' ! i = f ! i + int (count_list (x # xs) (int i))"
      using f'(3) x by (cases "i = ?i") (auto simp: nth_list_update split: if_splits)
  qed
  with f'(1,2) x c show ?case by simp
qed

lemma scan_mode_first_max:
  "(scan_mode fs i mode mf = mode \<and> (\<forall>f\<in>set fs. f \<le> mf)) \<or>
   (\<exists>j<length fs. scan_mode fs i mode mf = i + int j \<and> mf < fs ! j \<and>
        (\<forall>j'<j. fs ! j' < fs ! j) \<and> (\<forall>j'<length fs. fs ! j' \<le> fs ! j))"
proof (induction fs arbitrary: i mode mf)
  case Nil
  then show ?case by simp
next
  case (Cons f fs)
  show ?case
  proof (cases "f > mf")
    case True
    from Cons.IH[of "i + 1" i f] show ?thesis
    proof (elim disjE conjE exE)
      assume a: "scan_mode fs (i + 1) i f = i" "\<forall>g\<in>set fs. g \<le> f"
      have "\<forall>j'<length (f # fs). (f # fs) ! j' \<le> (f # fs) ! 0"
        using a(2) by (auto simp: nth_Cons split: nat.splits)
      with a True show ?thesis by (intro disjI2 exI[of _ 0]) simp
    next
      fix j
      assume a: "j < length fs" "scan_mode fs (i + 1) i f = i + 1 + int j" "f < fs ! j"
        "\<forall>j'<j. fs ! j' < fs ! j" "\<forall>j'<length fs. fs ! j' \<le> fs ! j"
      have 1: "\<forall>j'<Suc j. (f # fs) ! j' < (f # fs) ! Suc j"
        using a(3,4) by (auto simp: nth_Cons split: nat.splits)
      have 2: "\<forall>j'<length (f # fs). (f # fs) ! j' \<le> (f # fs) ! Suc j"
        using a(3,5) by (auto simp: nth_Cons split: nat.splits)
      from a True 1 2 show ?thesis by (intro disjI2 exI[of _ "Suc j"]) simp
    qed
  next
    case False
    from Cons.IH[of "i + 1" mode mf] show ?thesis
    proof (elim disjE conjE exE)
      assume "scan_mode fs (i + 1) mode mf = mode" "\<forall>g\<in>set fs. g \<le> mf"
      with False show ?thesis by simp
    next
      fix j
      assume a: "j < length fs" "scan_mode fs (i + 1) mode mf = i + 1 + int j" "mf < fs ! j"
        "\<forall>j'<j. fs ! j' < fs ! j" "\<forall>j'<length fs. fs ! j' \<le> fs ! j"
      have 1: "\<forall>j'<Suc j. (f # fs) ! j' < (f # fs) ! Suc j"
        using a(3,4) False by (auto simp: nth_Cons split: nat.splits)
      have 2: "\<forall>j'<length (f # fs). (f # fs) ! j' \<le> (f # fs) ! Suc j"
        using a(3,5) False by (auto simp: nth_Cons split: nat.splits)
      from a False 1 2 show ?thesis by (intro disjI2 exI[of _ "Suc j"]) simp
    qed
  qed
qed

lemma get_mode_ok:
  assumes ne: "data \<noteq> []"
    and rng: "\<forall>x\<in>set data. 0 \<le> x \<and> x < INT_MAX"
    and len: "int (length data) \<le> INT_MAX"
    and ok: "alloc_ok w (alloc_pos w)"
  shows "\<exists>m. get_mode data w = Inr (m, w\<lparr>alloc_pos := alloc_pos w + 1\<rparr>) \<and> is_mode data m"
proof -
  define mx where "mx = max_val_loop data 0"
  define size where "size = nat (mx + 1)"
  have mx0: "0 \<le> mx" and mxb: "\<forall>x\<in>set data. x \<le> mx"
    using max_val_loop_bounds[of 0 data] by (simp_all add: mx_def)
  have mxlt: "mx < INT_MAX"
  proof -
    have "max_val_loop xs m < INT_MAX" if "m < INT_MAX" "\<forall>x\<in>set xs. x < INT_MAX" for xs m
      using that by (induction xs arbitrary: m) auto
    then show ?thesis using rng by (simp add: mx_def INT_MAX_def)
  qed
  have sz: "(if mx < 1 then Inr 1 else c_int (mx + 1)) = Inr (mx + 1)"
    using mx0 mxlt by (auto simp: c_int_def INT_MIN_def)
  have inr: "\<forall>x\<in>set data. 0 \<le> x \<and> nat x < length (replicate size (0::int))"
    using rng mxb mx0 by (auto simp: size_def)
  have cnt: "\<forall>i<length (replicate size (0::int)).
      0 \<le> replicate size (0::int) ! i \<and>
      replicate size (0::int) ! i + int (count_list data (int i)) \<le> INT_MAX"
  proof (intro allI impI)
    fix i assume "i < length (replicate size (0::int))"
    moreover have "int (count_list data (int i)) \<le> int (length data)"
      using count_le_length[of data "int i"] by simp
    ultimately show "0 \<le> replicate size (0::int) ! i \<and>
      replicate size (0::int) ! i + int (count_list data (int i)) \<le> INT_MAX"
      using len by simp
  qed
  from populate_counts[OF inr cnt] obtain freq where
    p: "populate data (replicate size 0) = Inr freq" and
    fl: "length freq = size" and
    fc: "\<forall>i<size. freq ! i = int (count_list data (int i))"
    by auto
  define r where "r = scan_mode freq 0 0 0"
  have g: "get_mode data w = Inr (r, w\<lparr>alloc_pos := alloc_pos w + 1\<rparr>)"
    using ne ok sz p
    by (simp add: get_mode_def Let_def mx_def[symmetric] size_def[symmetric] alloc_request_def
          r_def)
  obtain h t where ht: "data = h # t" using ne by (cases data) auto
  have hin: "nat h < size" "0 \<le> h" using rng mxb mx0 by (auto simp: ht size_def)
  have hpos: "0 < freq ! nat h" using fc hin by (simp add: ht)
  from scan_mode_first_max[of freq 0 0 0] have
    "\<exists>j<length freq. r = int j \<and> 0 < freq ! j \<and>
        (\<forall>j'<j. freq ! j' < freq ! j) \<and> (\<forall>j'<length freq. freq ! j' \<le> freq ! j)"
  proof (elim disjE conjE)
    assume "\<forall>f\<in>set freq. f \<le> 0"
    moreover have "freq ! nat h \<in> set freq" using hin fl by simp
    ultimately show ?thesis using hpos by force
  next
    assume "\<exists>j<length freq. scan_mode freq 0 0 0 = 0 + int j \<and> 0 < freq ! j \<and>
        (\<forall>j'<j. freq ! j' < freq ! j) \<and> (\<forall>j'<length freq. freq ! j' \<le> freq ! j)"
    then show ?thesis by (simp add: r_def)
  qed
  then obtain j where j: "j < size" "r = int j" "0 < freq ! j"
    "\<forall>j'<j. freq ! j' < freq ! j" "\<forall>j'<size. freq ! j' \<le> freq ! j"
    using fl by auto
  have cj: "int (count_list data r) = freq ! j" using fc j by simp
  have "r \<in> set data"
  proof (rule ccontr)
    assume "r \<notin> set data"
    then have "count_list data r = 0" by simp
    with cj j(3) show False by simp
  qed
  moreover have "\<forall>x\<in>set data. count_list data x \<le> count_list data r"
  proof
    fix x assume "x \<in> set data"
    then have x: "0 \<le> x" "nat x < size" using rng mxb mx0 by (auto simp: size_def)
    then have "int (count_list data x) = freq ! nat x" using fc by simp
    then show "count_list data x \<le> count_list data r" using j(5) x cj by auto
  qed
  moreover have "\<forall>x\<in>set data. count_list data x = count_list data r \<longrightarrow> r \<le> x"
  proof (intro ballI impI)
    fix x assume "x \<in> set data" and e: "count_list data x = count_list data r"
    then have x: "0 \<le> x" "nat x < size" using rng mxb mx0 by (auto simp: size_def)
    then have fx: "int (count_list data x) = freq ! nat x" using fc by simp
    show "r \<le> x"
    proof (rule ccontr)
      assume "\<not> r \<le> x"
      then have "nat x < j" using j(2) x by simp
      then have "freq ! nat x < freq ! j" using j(4) by simp
      with fx cj e show False by simp
    qed
  qed
  ultimately have "is_mode data r" by (simp add: is_mode_def)
  with g show ?thesis by blast
qed

lemma get_mode_alloc_fails:
  assumes "data \<noteq> []" "\<forall>x\<in>set data. x < INT_MAX" "\<not> alloc_ok w (alloc_pos w)"
  shows "get_mode data w =
           Inr (- 1, perror ''Failed to allocate memory for mode calculation''
                       (w\<lparr>alloc_pos := alloc_pos w + 1\<rparr>))"
proof -
  have "max_val_loop xs m < INT_MAX" if "m < INT_MAX" "\<forall>x\<in>set xs. x < INT_MAX" for xs m
    using that by (induction xs arbitrary: m) auto
  then have "max_val_loop data 0 < INT_MAX" using assms(2) by (simp add: INT_MAX_def)
  moreover have "0 \<le> max_val_loop data 0" using max_val_loop_bounds[of 0 data] by simp
  ultimately show ?thesis
    using assms(1,3)
    by (auto simp: get_mode_def Let_def alloc_request_def c_int_def INT_MIN_def)
qed

text \<open>
  Claim C4, as amended. For a non-empty list of wait times in \<open>0..INT_MAX-1\<close>, when the
  frequency array can be allocated \<open>get_mode\<close> returns a value of the list with the highest
  frequency, the smallest of those; \<open>[1,1,2,2]\<close> gives 1. When the allocation fails it writes
  a message to the error stream and returns -1. For the empty list it returns 0.
\<close>
theorem get_mode_smallest_most_frequent:
  "(data \<noteq> [] \<and> (\<forall>x\<in>set data. 0 \<le> x \<and> x < INT_MAX) \<and> int (length data) \<le> INT_MAX \<and>
    alloc_ok w (alloc_pos w) \<longrightarrow>
      (\<exists>m. get_mode data w = Inr (m, w\<lparr>alloc_pos := alloc_pos w + 1\<rparr>) \<and> is_mode data m)) \<and>
   (data \<noteq> [] \<and> (\<forall>x\<in>set data. x < INT_MAX) \<and> \<not> alloc_ok w (alloc_pos w) \<longrightarrow>
      get_mode data w =
        Inr (- 1, perror ''Failed to allocate memory for mode calculation''
                    (w\<lparr>alloc_pos := alloc_pos w + 1\<rparr>))) \<and>
   get_mode [] w = Inr (0, w) \<and>
   (alloc_ok w (alloc_pos w) \<longrightarrow>
      get_mode [1, 1, 2, 2] w = Inr (1, w\<lparr>alloc_pos := alloc_pos w + 1\<rparr>))"
proof (intro conjI impI)
  assume "data \<noteq> [] \<and> (\<forall>x\<in>set data. 0 \<le> x \<and> x < INT_MAX) \<and> int (length data) \<le> INT_MAX \<and>
    alloc_ok w (alloc_pos w)"
  then show "\<exists>m. get_mode data w = Inr (m, w\<lparr>alloc_pos := alloc_pos w + 1\<rparr>) \<and> is_mode data m"
    by (elim conjE) (rule get_mode_ok)
next
  assume "data \<noteq> [] \<and> (\<forall>x\<in>set data. x < INT_MAX) \<and> \<not> alloc_ok w (alloc_pos w)"
  then show "get_mode data w =
        Inr (- 1, perror ''Failed to allocate memory for mode calculation''
                    (w\<lparr>alloc_pos := alloc_pos w + 1\<rparr>))"
    by (elim conjE) (rule get_mode_alloc_fails)
next
  show "get_mode [] w = Inr (0, w)" by (simp add: get_mode_def)
next
  assume "alloc_ok w (alloc_pos w)"
  then show "get_mode [1, 1, 2, 2] w = Inr (1, w\<lparr>alloc_pos := alloc_pos w + 1\<rparr>)"
    by (simp add: get_mode_def alloc_request_def c_int_def INT_MIN_def INT_MAX_def
          numeral_3_eq_3)
qed

theorem get_mode_smallest_most_frequent_witness:
  "(\<exists>m. get_mode [5, 3, 5, 3, 7] (initial_world (\<lambda>s i. 0) (\<lambda>n. True) 0) =
          Inr (m, (initial_world (\<lambda>s i. 0) (\<lambda>n. True) 0)\<lparr>alloc_pos := 1\<rparr>) \<and>
        is_mode [5, 3, 5, 3, 7] m \<and> m = 3) \<and>
   get_mode [5, 3, 5, 3, 7] (initial_world (\<lambda>s i. 0) (\<lambda>n. False) 0) =
     Inr (- 1, perror ''Failed to allocate memory for mode calculation''
                 ((initial_world (\<lambda>s i. 0) (\<lambda>n. False) 0)\<lparr>alloc_pos := 1\<rparr>)) \<and>
   get_mode [1, 1, 2, 2] (initial_world (\<lambda>s i. 0) (\<lambda>n. True) 0) =
     Inr (1, (initial_world (\<lambda>s i. 0) (\<lambda>n. True) 0)\<lparr>alloc_pos := 1\<rparr>)"
proof -
  let ?T = "initial_world (\<lambda>s i. 0) (\<lambda>n. True) 0"
  let ?F = "initial_world (\<lambda>s i. 0) (\<lambda>n. False) 0"
  note a = get_mode_smallest_most_frequent[of "[5, 3, 5, 3, 7]" ?T]
  note b = get_mode_smallest_most_frequent[of "[5, 3, 5, 3, 7]" ?F]
  have h: "\<forall>x\<in>set [5, 3, 5, 3, 7::int]. 0 \<le> x \<and> x < INT_MAX"
    "int (length [5, 3, 5, 3, 7::int]) \<le> INT_MAX"
    by (simp_all add: INT_MAX_def)
  have t: "alloc_ok ?T (alloc_pos ?T)" "\<not> alloc_ok ?F (alloc_pos ?F)" "alloc_pos ?T = 0"
    "alloc_pos ?F = 0"
    by (simp_all add: initial_world_def)
  from a h t obtain m where m: "get_mode [5, 3, 5, 3, 7] ?T = Inr (m, ?T\<lparr>alloc_pos := 1\<rparr>)"
    "is_mode [5, 3, 5, 3, 7] m" by auto
  from m(2) have "m = 3" by (auto simp: is_mode_def)
  moreover from b h t have "get_mode [5, 3, 5, 3, 7] ?F =
     Inr (- 1, perror ''Failed to allocate memory for mode calculation'' (?F\<lparr>alloc_pos := 1\<rparr>))"
    by auto
  moreover from a t have "get_mode [1, 1, 2, 2] ?T = Inr (1, ?T\<lparr>alloc_pos := 1\<rparr>)" by simp
  ultimately show ?thesis using m by blast
qed

text \<open>
  The claim as stated fails where \<^verbatim>\<open>calloc\<close> returns NULL: on \<open>[1,1,2,2]\<close> the function then
  returns -1, which is not the mode.
\<close>

theorem get_mode_alloc_failure_counterexample:
  "get_mode [1, 1, 2, 2] (initial_world (\<lambda>s i. 0) (\<lambda>n. False) 0) =
     Inr (- 1, perror ''Failed to allocate memory for mode calculation''
                 ((initial_world (\<lambda>s i. 0) (\<lambda>n. False) 0)\<lparr>alloc_pos := 1\<rparr>)) \<and>
   \<not> is_mode [1, 1, 2, 2] (- 1)"
  by (simp add: get_mode_def alloc_request_def initial_world_def is_mode_def c_int_def
        INT_MIN_def INT_MAX_def)

section \<open>The order of the steps of a minute\<close>

lemma enqueue_arrivals_inv:
  "queue_inv w q as \<Longrightarrow> enqueue_arrivals n q m w = Inr (q', w') \<Longrightarrow>
   \<exists>new. queue_inv w' q' (as @ new) \<and> length new = n \<and>
         (\<forall>a\<in>set new. arrival_of w' a = m) \<and>
         (\<forall>a\<in>set as. arrival_of w' a = arrival_of w a)"
proof (induction n arbitrary: q w as)
  case 0
  then show ?case by simp
next
  case (Suc n)
  from Suc.prems(2) obtain q1 w1 where e: "enqueue q m w = Inr (q1, w1)"
    and r: "enqueue_arrivals n q1 m w1 = Inr (q', w')"
    by (auto simp: bind_err_Inr_iff)
  from enqueue_inv[OF Suc.prems(1) e] have
    q1: "queue_inv w1 q1 (as @ [next_addr w])" and
    a1: "arrival_of w1 (next_addr w) = m" and
    o1: "\<forall>a\<in>set as. arrival_of w1 a = arrival_of w a"
    by auto
  from Suc.IH[OF q1 r] obtain new where
    n: "queue_inv w' q' ((as @ [next_addr w]) @ new)" "length new = n"
       "\<forall>a\<in>set new. arrival_of w' a = m"
       "\<forall>a\<in>set (as @ [next_addr w]). arrival_of w' a = arrival_of w1 a"
    by blast
  have "\<forall>a\<in>set (next_addr w # new). arrival_of w' a = m" using n(3,4) a1 by simp
  moreover have "\<forall>a\<in>set as. arrival_of w' a = arrival_of w a" using n(4) o1 by simp
  ultimately show ?case using n(1,2) by (intro exI[of _ "next_addr w # new"]) simp
qed

lemma assign_tellers_recorded_prefix:
  "qs_inv w0 m arrived q st w \<Longrightarrow> assign_tellers m ts q st w = Inr (ts', q', st', w') \<Longrightarrow>
   \<exists>xs. recorded st' = recorded st @ xs"
proof (induction ts arbitrary: q st w ts')
  case Nil
  then show ?case by simp
next
  case (Cons t ts)
  from Cons.prems(2) obtain t1 q1 st1 w1 ts1 where
    a: "assign_teller m t q st w = Inr (t1, q1, st1, w1)" and
    r: "assign_tellers m ts q1 st1 w1 = Inr (ts1, q', st', w')"
    by (auto simp: bind_err_Inr_iff)
  have ok: "storage_ok st" using Cons.prems(1) by (simp add: qs_inv_def)
  have "\<exists>ys. recorded st1 = recorded st @ ys"
    using a
  proof (cases rule: assign_teller_elim)
    case idle
    then show ?thesis by simp
  next
    case (assign a c w2)
    from add_wait_time_cases[OF ok assign(7)] show ?thesis by auto
  qed
  moreover from Cons.IH[OF assign_teller_qs_inv[OF Cons.prems(1) a] r]
  have "\<exists>xs. recorded st' = recorded st1 @ xs" .
  ultimately show ?case by auto
qed

lemma freed_teller_serves_arrival:
  assumes inv: "sim_inv w0 m s w" and m: "0 \<le> m"
    and empty: "is_empty (bank_queue s)"
    and tl: "tellers s = t # ts" "is_busy t \<noteq> 0" "remaining_service_time t = 1"
    and room: "count (storage s) < capacity (storage s)"
    and arr: "get_poisson_random fp lambda w = Inr (n, w1)" "0 < n"
    and step: "sim_minute fp lambda m s w = Inr (s', w')"
  shows "\<exists>xs t' ts'. recorded (storage s') = recorded (storage s) @ Some 0 # xs \<and>
           tellers s' = t' # ts' \<and> is_busy t' = 1 \<and>
           MIN_SERVICE_TIME \<le> remaining_service_time t' \<and>
           remaining_service_time t' \<le> MAX_SERVICE_TIME"
proof -
  from step obtain tsa n' w1' q1 w2 where
    t: "tick_tellers (tellers s) = Inr tsa" and
    p: "get_poisson_random fp lambda w = Inr (n', w1')" and
    e: "enqueue_arrivals (nat n') (bank_queue s) m w1' = Inr (q1, w2)" and
    a: "assign_tellers m tsa q1 (storage s) w2 = Inr (tellers s', bank_queue s', storage s', w')"
    by (rule sim_minute_cases)
  from p arr(1) have eq: "n' = n" "w1' = w1" by simp_all
  \<comment> \<open>step 1 frees the teller\<close>
  from t tl obtain t1 ts1 where tsa: "tsa = t1 # ts1" and t1: "is_busy t1 = 0"
    by (auto simp: bind_err_Inr_iff tick_teller_def c_int_Inr_iff Let_def)
  \<comment> \<open>step 2 puts the arrivals of this minute into the empty queue\<close>
  from get_poisson_random_frame[OF arr(1)] obtain j where w1: "w1 = w\<lparr>rand_pos := j\<rparr>" by blast
  have qi: "qs_inv w0 (m - 1) (total_arrivals s) (bank_queue s) (storage s) w1"
    using inv qs_inv_frame[of w1 w w0 "m - 1" "total_arrivals s" "bank_queue s" "storage s"]
    by (simp add: sim_inv_def w1)
  then have qm: "qs_inv w0 m (total_arrivals s) (bank_queue s) (storage s) w1"
    by (rule qs_inv_mono) simp
  from qi obtain as where q0: "queue_inv w1 (bank_queue s) as" by (auto simp: qs_inv_def)
  with empty have as: "as = []" using queue_inv_empty_iff by blast
  from enqueue_arrivals_inv[OF q0 e[unfolded eq]] as obtain new where
    new: "queue_inv w2 q1 new" "length new = nat n" "\<forall>a\<in>set new. arrival_of w2 a = m"
    by auto
  from new(2) arr(2) obtain b bs where nb: "new = b # bs" by (cases new) auto
  have q2: "qs_inv w0 m (total_arrivals s + int (nat n)) q1 (storage s) w2"
    using enqueue_arrivals_qs_inv[OF qm e[unfolded eq] m] by simp
  \<comment> \<open>step 3 gives the front customer to the freed teller\<close>
  from a tsa obtain t1' q1' st1 w3 ts1' where
    a1: "assign_teller m t1 q1 (storage s) w2 = Inr (t1', q1', st1, w3)" and
    ar: "assign_tellers m ts1 q1' st1 w3 = Inr (ts1', bank_queue s', storage s', w')" and
    ts': "tellers s' = t1' # ts1'"
    by (auto simp: bind_err_Inr_iff)
  have ne: "\<not> is_empty q1" using queue_inv_empty_iff[OF new(1)] nb by simp
  have ok: "storage_ok (storage s)" using qi by (simp add: qs_inv_def)
  from a1 have first: "recorded st1 = recorded (storage s) @ [Some 0] \<and> is_busy t1' = 1 \<and>
      MIN_SERVICE_TIME \<le> remaining_service_time t1' \<and>
      remaining_service_time t1' \<le> MAX_SERVICE_TIME"
  proof (cases rule: assign_teller_elim)
    case idle
    with t1 ne show ?thesis by simp
  next
    case (assign a c w4)
    from dequeue_inv[OF new(1)[unfolded nb]] assign(3) have "b = a" by auto
    then have "arrival_of w2 a = m" using new(3) nb by simp
    then have wt: "m - arrival_minute c = 0" using assign(4) by (simp add: arrival_of_def)
    have ne': "count (storage s) \<noteq> capacity (storage s)" using room by simp
    have r: "0 \<le> count (storage s)" "count (storage s) < int (length (wait_times (storage s)))"
      using ok room by (auto simp: storage_ok_def)
    from add_wait_time_room[OF ok ne', of 0 w2] assign(7) wt
    have "recorded st1 = recorded (storage s) @ [Some 0]"
      using recorded_store[OF r, of 0] by auto
    then show ?thesis using assign(8) get_service_time_range[of w4] by simp
  qed
  from assign_tellers_recorded_prefix[OF assign_teller_qs_inv[OF q2 a1] ar]
  obtain xs where "recorded (storage s') = recorded st1 @ xs" by blast
  with first ts' show ?thesis by auto
qed

text \<open>
  Each step completes: step 1 when no remaining time is at the edge of \<^verbatim>\<open>int\<close>, step 2 when
  the allocations succeed, step 3 when the storage has room for one record per teller.
\<close>

lemma enqueue_succeeds:
  assumes q: "queue_inv w q as" and ok: "alloc_ok w (alloc_pos w)"
    and c: "customer_count q < INT_MAX"
  shows "\<exists>q' w'. enqueue q v w = Inr (q', w')"
proof (cases as rule: rev_cases)
  case Nil
  then have "is_empty q" using queue_inv_empty_iff[OF q] by simp
  moreover have "0 \<le> customer_count q" using q by (simp add: queue_inv_def)
  ultimately have "is_empty q" "0 \<le> customer_count q" by simp_all
  then show ?thesis
    using ok c
    by (simp add: enqueue_def malloc_Customer_def alloc_request_def c_int_def INT_MIN_def)
next
  case (snoc bs r)
  then have ne: "\<not> is_empty q" using q queue_inv_empty_iff by blast
  have rq: "rear q = Some r" "0 \<le> customer_count q" "r < next_addr w"
    using q snoc by (auto simp: queue_inv_def)
  have "chain (heap w) (front q) (bs @ [r])" using q snoc by (simp add: queue_inv_def)
  from chain_last_next[OF this] obtain cu where "heap w r = Some cu" by blast
  then show ?thesis
    using ok c ne rq
    by (simp add: enqueue_def malloc_Customer_def alloc_request_def c_int_def INT_MIN_def
          Let_def)
qed

lemma enqueue_arrivals_succeeds:
  "queue_inv w q as \<Longrightarrow> (\<forall>i<n. alloc_ok w (alloc_pos w + i)) \<Longrightarrow>
   customer_count q + int n \<le> INT_MAX \<Longrightarrow>
   \<exists>q' w'. enqueue_arrivals n q m w = Inr (q', w') \<and> alloc_pos w' = alloc_pos w + n \<and>
           alloc_ok w' = alloc_ok w \<and> rand_gen w' = rand_gen w \<and> rand_seed w' = rand_seed w \<and>
           rand_pos w' = rand_pos w"
proof (induction n arbitrary: q w as)
  case 0
  then show ?case by simp
next
  case (Suc n)
  have "alloc_ok w (alloc_pos w)" using Suc.prems(2) by force
  from enqueue_succeeds[OF Suc.prems(1) this, of m] Suc.prems(3)
  obtain q1 w1 where e: "enqueue q m w = Inr (q1, w1)" by auto
  from enqueue_inv[OF Suc.prems(1) e] have q1: "queue_inv w1 q1 (as @ [next_addr w])" by simp
  have f: "alloc_ok w1 = alloc_ok w" "alloc_pos w1 = alloc_pos w + 1" "rand_pos w1 = rand_pos w"
    "rand_gen w1 = rand_gen w" "rand_seed w1 = rand_seed w"
    using enqueue_frame[OF e] by simp_all
  have c1: "customer_count q1 = customer_count q + 1"
    using Suc.prems(1) q1 by (simp add: queue_inv_def)
  have a1: "\<forall>i<n. alloc_ok w1 (alloc_pos w1 + i)"
  proof (intro allI impI)
    fix i assume "i < n"
    then have "Suc i < Suc n" by simp
    with Suc.prems(2) have "alloc_ok w (alloc_pos w + Suc i)" by blast
    then show "alloc_ok w1 (alloc_pos w1 + i)" by (simp add: f)
  qed
  from Suc.IH[OF q1 a1] c1 Suc.prems(3) obtain q' w' where
    "enqueue_arrivals n q1 m w1 = Inr (q', w')" "alloc_pos w' = alloc_pos w1 + n"
    "alloc_ok w' = alloc_ok w1" "rand_gen w' = rand_gen w1" "rand_seed w' = rand_seed w1"
    "rand_pos w' = rand_pos w1"
    by auto
  with e f show ?case by simp
qed

lemma tick_tellers_succeeds:
  "\<forall>t\<in>set ts. is_busy t \<noteq> 0 \<longrightarrow>
      INT_MIN < remaining_service_time t \<and> remaining_service_time t \<le> INT_MAX \<Longrightarrow>
   \<exists>ts'. tick_tellers ts = Inr ts'"
proof (induction ts)
  case Nil
  then show ?case by simp
next
  case (Cons t ts)
  then obtain ts' where r: "tick_tellers ts = Inr ts'" by auto
  have "\<exists>t'. tick_teller t = Inr t'"
    using Cons.prems by (auto simp: tick_teller_def c_int_def Let_def)
  then obtain t' where "tick_teller t = Inr t'" by blast
  with r show ?case by simp
qed

lemma assign_teller_succeeds:
  assumes i: "qs_inv w0 m arrived q st w" and m: "m \<le> INT_MAX"
    and room: "count st < capacity st"
  shows "\<exists>t' q' st' w'. assign_teller m t q st w = Inr (t', q', st', w') \<and>
           count st' \<le> count st + 1 \<and> capacity st' = capacity st"
proof (cases "is_busy t = 0 \<and> \<not> is_empty q")
  case False
  then have "assign_teller m t q st w = Inr (t, q, st, w)" by (auto simp: assign_teller_def)
  then show ?thesis by simp
next
  case True
  from i obtain as where q: "queue_inv w q as"
    and ar: "\<forall>a\<in>set as. 0 \<le> arrival_of w a \<and> arrival_of w a \<le> m"
    and ok: "storage_ok st"
    by (auto simp: qs_inv_def)
  from True obtain a bs where as: "as = a # bs"
    using queue_inv_empty_iff[OF q] by (cases as) auto
  from dequeue_inv[OF q[unfolded as]] obtain q' c where
    d: "dequeue q w = Inr (Some a, q')" and c: "heap w a = Some c"
    by auto
  have "0 \<le> arrival_of w a \<and> arrival_of w a \<le> m" using ar as by simp
  then have "0 \<le> m - arrival_minute c" "m - arrival_minute c \<le> INT_MAX"
    using c m by (simp_all add: arrival_of_def)
  then have ci: "c_int (m - arrival_minute c) = Inr (m - arrival_minute c)"
    by (simp add: c_int_def INT_MIN_def)
  have ne: "count st \<noteq> capacity st" using room by simp
  note a = add_wait_time_room[OF ok ne, of "m - arrival_minute c" w]
  let ?st = "st\<lparr>wait_times := (wait_times st)[nat (count st) := Some (m - arrival_minute c)],
                 count := count st + 1\<rparr>"
  have "assign_teller m t q st w =
      Inr (t\<lparr>is_busy := 1, remaining_service_time := fst (get_service_time w)\<rparr>, q', ?st,
           free_Customer a (snd (get_service_time w)))"
    using True d c ci a by (simp add: assign_teller_def split_beta)
  then show ?thesis by simp
qed

lemma assign_tellers_succeeds:
  "qs_inv w0 m arrived q st w \<Longrightarrow> m \<le> INT_MAX \<Longrightarrow>
   count st + int (length ts) \<le> capacity st \<Longrightarrow>
   \<exists>r. assign_tellers m ts q st w = Inr r"
proof (induction ts arbitrary: q st w)
  case Nil
  then show ?case by simp
next
  case (Cons t ts)
  have room: "count st < capacity st" using Cons.prems(3) by simp
  from assign_teller_succeeds[OF Cons.prems(1,2) room, of t] obtain t1 q1 st1 w1 where
    a: "assign_teller m t q st w = Inr (t1, q1, st1, w1)"
    and c: "count st1 \<le> count st + 1" "capacity st1 = capacity st"
    by blast
  have i1: "qs_inv w0 m arrived q1 st1 w1" using Cons.prems(1) a by (rule assign_teller_qs_inv)
  have "count st1 + int (length ts) \<le> capacity st1" using c Cons.prems(3) by simp
  from Cons.IH[OF i1 Cons.prems(2) this] obtain r where "assign_tellers m ts q1 st1 w1 = Inr r"
    by blast
  then show ?case using a by (cases r) simp
qed

text \<open>Step 1 decrements every busy teller and frees the ones that reach 0.\<close>

lemma idle_before_Cons:
  "idle_before (t # ts) (Suc i) = (if is_busy t = 0 then 1 else 0) + idle_before ts i"
  by (simp add: idle_before_def)

lemma idle_before_0: "idle_before ts 0 = 0"
  by (simp add: idle_before_def)

lemma tick_teller_effect:
  assumes "tick_teller t = Inr t'"
  shows "(is_busy t = 0 \<longrightarrow> t' = t) \<and>
         (is_busy t \<noteq> 0 \<longrightarrow>
            remaining_service_time t' = remaining_service_time t - 1 \<and>
            is_busy t' = (if remaining_service_time t = 1 then 0 else is_busy t))"
  using assms
  by (auto simp: tick_teller_def bind_err_Inr_iff c_int_Inr_iff Let_def split: if_splits)

lemma tick_tellers_nth:
  "tick_tellers ts = Inr ts' \<Longrightarrow>
   length ts' = length ts \<and> (\<forall>i<length ts. tick_teller (ts ! i) = Inr (ts' ! i))"
proof (induction ts arbitrary: ts')
  case Nil
  then show ?case by simp
next
  case (Cons t ts)
  from Cons.prems obtain t1 ts1 where t: "tick_teller t = Inr t1"
    and r: "tick_tellers ts = Inr ts1" and ts': "ts' = t1 # ts1"
    by (auto simp: bind_err_Inr_iff)
  from Cons.IH[OF r] have l: "length ts1 = length ts"
    and n: "\<forall>i<length ts. tick_teller (ts ! i) = Inr (ts1 ! i)" by simp_all
  have "\<forall>i<length (t # ts). tick_teller ((t # ts) ! i) = Inr (ts' ! i)"
  proof (intro allI impI)
    fix i assume "i < length (t # ts)"
    then show "tick_teller ((t # ts) ! i) = Inr (ts' ! i)"
      using t n ts' by (cases i) simp_all
  qed
  then show ?case using l ts' by simp
qed

lemma tick_tellers_effect:
  assumes "tick_tellers ts = Inr ts'"
  shows "length ts' = length ts \<and>
         (\<forall>i<length ts.
            (is_busy (ts ! i) = 0 \<longrightarrow> ts' ! i = ts ! i) \<and>
            (is_busy (ts ! i) \<noteq> 0 \<longrightarrow>
               remaining_service_time (ts' ! i) = remaining_service_time (ts ! i) - 1 \<and>
               is_busy (ts' ! i) =
                 (if remaining_service_time (ts ! i) = 1 then 0 else is_busy (ts ! i))))"
  using tick_tellers_nth[OF assms] tick_teller_effect by blast

text \<open>An idle teller takes the customer at the front of the queue.\<close>

lemma assign_teller_front:
  assumes q: "queue_inv x q (a # bs)" and ok: "storage_ok st" and free: "is_busy t = 0"
    and a: "assign_teller m t q st x = Inr (t1, q1, st1, x1)"
  shows "queue_inv x1 q1 bs \<and> (\<forall>b\<in>set bs. arrival_of x1 b = arrival_of x b) \<and>
         is_busy t1 = 1 \<and> MIN_SERVICE_TIME \<le> remaining_service_time t1 \<and>
         remaining_service_time t1 \<le> MAX_SERVICE_TIME \<and> storage_ok st1 \<and>
         (recorded st1 = recorded st @ [Some (m - arrival_of x a)] \<and> stderr x1 = stderr x \<or>
          st1 = st \<and> stderr x1 = stderr x @ [realloc_failed])"
  using a
proof (cases rule: assign_teller_elim)
  case idle
  with free show ?thesis using queue_inv_empty_iff[OF q] by simp
next
  case (assign a' c w1)
  from dequeue_inv[OF q] assign(3) have eq: "a' = a"
    and q1: "queue_inv (free_Customer a x) q1 bs"
    and ar: "\<forall>b\<in>set bs. arrival_of (free_Customer a x) b = arrival_of x b"
    by auto
  have wt: "m - arrival_minute c = m - arrival_of x a"
    using assign(4) eq by (simp add: arrival_of_def)
  from add_wait_time_cases[OF ok assign(7)] consider
    (dropped) "st1 = st"
      "w1 = x\<lparr>alloc_pos := alloc_pos x + 1, stderr := stderr x @ [realloc_failed]\<rparr>"
    | (kept) "recorded st1 = recorded st @ [Some (m - arrival_minute c)]" "storage_ok st1"
      "w1 = x \<or> w1 = x\<lparr>alloc_pos := alloc_pos x + 1\<rparr>"
    unfolding realloc_failed_def by blast
  then have "heap w1 = heap x \<and> next_addr w1 = next_addr x \<and> storage_ok st1 \<and>
    (recorded st1 = recorded st @ [Some (m - arrival_of x a)] \<and> stderr w1 = stderr x \<or>
     st1 = st \<and> stderr w1 = stderr x @ [realloc_failed])"
  proof cases
    case dropped
    then show ?thesis using ok by simp
  next
    case kept
    then show ?thesis using wt by auto
  qed
  then have w1: "heap w1 = heap x" "next_addr w1 = next_addr x" "storage_ok st1"
    "recorded st1 = recorded st @ [Some (m - arrival_of x a)] \<and> stderr w1 = stderr x \<or>
     st1 = st \<and> stderr w1 = stderr x @ [realloc_failed]"
    by simp_all
  have x1: "heap x1 = heap (free_Customer a x)" "next_addr x1 = next_addr (free_Customer a x)"
    "stderr x1 = stderr w1"
    using w1(1,2) by (simp_all add: assign(9) eq free_Customer_def get_service_time_frame)
  have "queue_inv x1 q1 bs" using q1 queue_inv_frame[OF x1(1,2)] by simp
  moreover have "\<forall>b\<in>set bs. arrival_of x1 b = arrival_of x b"
    using ar arrival_of_frame[OF x1(1)] by simp
  moreover have "is_busy t1 = 1 \<and> MIN_SERVICE_TIME \<le> remaining_service_time t1 \<and>
         remaining_service_time t1 \<le> MAX_SERVICE_TIME"
    using assign(8) get_service_time_range[of w1] by simp
  ultimately show ?thesis using w1(3,4) x1(3) by simp
qed

lemma assign_teller_stderr:
  assumes ok: "storage_ok st" and a: "assign_teller m t q st x = Inr (t1, q1, st1, x1)"
  shows "storage_ok st1 \<and> (\<exists>k. stderr x1 = stderr x @ replicate k realloc_failed)"
  using a
proof (cases rule: assign_teller_elim)
  case idle
  then show ?thesis using ok by simp
next
  case (assign a' c w1)
  from add_wait_time_cases[OF ok assign(7)]
  have "storage_ok st1 \<and> (stderr w1 = stderr x \<or> stderr w1 = stderr x @ [realloc_failed])"
    unfolding realloc_failed_def using ok by auto
  moreover have "stderr x1 = stderr w1"
    by (simp add: assign(9) free_Customer_def get_service_time_frame)
  ultimately have "storage_ok st1 \<and>
      (stderr x1 = stderr x @ replicate 0 realloc_failed \<or>
       stderr x1 = stderr x @ replicate 1 realloc_failed)" by simp
  then show ?thesis by blast
qed

lemma assign_tellers_stderr:
  "storage_ok st \<Longrightarrow> assign_tellers m ts q st x = Inr (ts', q', st', x') \<Longrightarrow>
   \<exists>k. stderr x' = stderr x @ replicate k realloc_failed"
proof (induction ts arbitrary: q st x ts')
  case Nil
  then show ?case by simp
next
  case (Cons t ts)
  from Cons.prems(2) obtain t1 q1 st1 x1 ts1 where
    a: "assign_teller m t q st x = Inr (t1, q1, st1, x1)" and
    r: "assign_tellers m ts q1 st1 x1 = Inr (ts1, q', st', x')"
    by (auto simp: bind_err_Inr_iff)
  from assign_teller_stderr[OF Cons.prems(1) a] obtain k1 where
    ok1: "storage_ok st1" and k1: "stderr x1 = stderr x @ replicate k1 realloc_failed" by blast
  from Cons.IH[OF ok1 r] obtain k2 where "stderr x' = stderr x1 @ replicate k2 realloc_failed"
    by blast
  with k1 have "stderr x' = stderr x @ replicate (k1 + k2) realloc_failed"
    by (simp add: replicate_add)
  then show ?case by blast
qed

text \<open>
  Step 3 over the whole array: the idle tellers, in index order, take the customers from
  the front of the queue until it is empty; the other tellers are left as they are.
\<close>

lemma stderr_unchanged:
  assumes "s1 = s0 @ replicate k1 (e::string)" "s2 = s1 @ replicate k2 e" "s2 = s0"
  shows "s1 = s0 \<and> s2 = s1"
proof -
  from assms have "length s0 = length s0 + k1 + k2" by (metis length_append length_replicate add.assoc)
  then have "k1 = 0" "k2 = 0" by simp_all
  with assms show ?thesis by simp
qed

lemma assign_tellers_effect:
  "queue_inv x q as \<Longrightarrow> storage_ok st \<Longrightarrow>
   assign_tellers m ts q st x = Inr (ts', q', st', x') \<Longrightarrow>
   length ts' = length ts \<and>
   queue_inv x' q' (drop (idle_before ts (length ts)) as) \<and>
   (\<forall>b\<in>set (drop (idle_before ts (length ts)) as). arrival_of x' b = arrival_of x b) \<and>
   (\<forall>i<length ts.
      if is_busy (ts ! i) = 0 \<and> idle_before ts i < length as
      then is_busy (ts' ! i) = 1 \<and> MIN_SERVICE_TIME \<le> remaining_service_time (ts' ! i) \<and>
           remaining_service_time (ts' ! i) \<le> MAX_SERVICE_TIME
      else ts' ! i = ts ! i) \<and>
   (stderr x' = stderr x \<longrightarrow>
      recorded st' =
        recorded st @ map (\<lambda>a. Some (m - arrival_of x a)) (take (idle_before ts (length ts)) as))"
proof (induction ts arbitrary: q st x as ts')
  case Nil
  then show ?case by (simp add: idle_before_def)
next
  case (Cons t ts)
  let ?k = "idle_before ts (length ts)"
  from Cons.prems(3) obtain t1 q1 st1 x1 ts1 where
    a: "assign_teller m t q st x = Inr (t1, q1, st1, x1)" and
    r: "assign_tellers m ts q1 st1 x1 = Inr (ts1, q', st', x')" and
    ts': "ts' = t1 # ts1"
    by (auto simp: bind_err_Inr_iff)
  show ?case
  proof (cases "is_busy t = 0 \<and> as \<noteq> []")
    case False
    then have skip: "is_busy t \<noteq> 0 \<or> is_empty q"
      using queue_inv_empty_iff[OF Cons.prems(1)] by blast
    from assign_teller_idle[OF skip, of m st x] a
    have same: "t1 = t" "q1 = q" "st1 = st" "x1 = x" by simp_all
    note ih = Cons.IH[OF Cons.prems(1,2) r[unfolded same]]
    have k: "drop (idle_before (t # ts) (length (t # ts))) as = drop ?k as"
      "take (idle_before (t # ts) (length (t # ts))) as = take ?k as"
      using False by (auto simp: idle_before_Cons)
    have "\<forall>i<length (t # ts).
      if is_busy ((t # ts) ! i) = 0 \<and> idle_before (t # ts) i < length as
      then is_busy (ts' ! i) = 1 \<and> MIN_SERVICE_TIME \<le> remaining_service_time (ts' ! i) \<and>
           remaining_service_time (ts' ! i) \<le> MAX_SERVICE_TIME
      else ts' ! i = (t # ts) ! i"
    proof (intro allI impI)
      fix i assume i: "i < length (t # ts)"
      show "if is_busy ((t # ts) ! i) = 0 \<and> idle_before (t # ts) i < length as
        then is_busy (ts' ! i) = 1 \<and> MIN_SERVICE_TIME \<le> remaining_service_time (ts' ! i) \<and>
             remaining_service_time (ts' ! i) \<le> MAX_SERVICE_TIME
        else ts' ! i = (t # ts) ! i"
      proof (cases i)
        case 0
        then show ?thesis using False ts' same by auto
      next
        case (Suc j)
        then have j: "j < length ts" using i by simp
        have c: "idle_before (t # ts) (Suc j) < length as \<longleftrightarrow> idle_before ts j < length as"
          using False by (auto simp: idle_before_Cons)
        from ih j have "if is_busy (ts ! j) = 0 \<and> idle_before ts j < length as
          then is_busy (ts1 ! j) = 1 \<and> MIN_SERVICE_TIME \<le> remaining_service_time (ts1 ! j) \<and>
               remaining_service_time (ts1 ! j) \<le> MAX_SERVICE_TIME
          else ts1 ! j = ts ! j" by blast
        then show ?thesis by (simp add: Suc ts' c)
      qed
    qed
    then show ?thesis using ih ts' by (simp only: k) simp
  next
    case True
    then obtain b bs where as: "as = b # bs" and free: "is_busy t = 0" by (cases as) auto
    from assign_teller_front[OF Cons.prems(1)[unfolded as] Cons.prems(2) free a]
    have q1: "queue_inv x1 q1 bs" and ar1: "\<forall>c\<in>set bs. arrival_of x1 c = arrival_of x c"
      and t1: "is_busy t1 = 1 \<and> MIN_SERVICE_TIME \<le> remaining_service_time t1 \<and>
               remaining_service_time t1 \<le> MAX_SERVICE_TIME"
      and ok1: "storage_ok st1"
      and rec1: "recorded st1 = recorded st @ [Some (m - arrival_of x b)] \<and> stderr x1 = stderr x \<or>
                 st1 = st \<and> stderr x1 = stderr x @ [realloc_failed]"
      by simp_all
    note ih = Cons.IH[OF q1 ok1 r]
    have k: "drop (idle_before (t # ts) (length (t # ts))) as = drop ?k bs"
      "take (idle_before (t # ts) (length (t # ts))) as = b # take ?k bs"
      using free as by (simp_all add: idle_before_Cons)
    have l: "length ts' = length (t # ts)" using ih ts' by simp
    have qf: "queue_inv x' q' (drop ?k bs)" using ih by simp
    have arf: "\<forall>c\<in>set (drop ?k bs). arrival_of x' c = arrival_of x c"
    proof
      fix c assume c: "c \<in> set (drop ?k bs)"
      then have "c \<in> set bs" by (rule in_set_dropD)
      with ar1 c ih show "arrival_of x' c = arrival_of x c" by simp
    qed
    have ix: "\<forall>i<length (t # ts).
      if is_busy ((t # ts) ! i) = 0 \<and> idle_before (t # ts) i < length as
      then is_busy (ts' ! i) = 1 \<and> MIN_SERVICE_TIME \<le> remaining_service_time (ts' ! i) \<and>
           remaining_service_time (ts' ! i) \<le> MAX_SERVICE_TIME
      else ts' ! i = (t # ts) ! i"
    proof (intro allI impI)
      fix i assume i: "i < length (t # ts)"
      show "if is_busy ((t # ts) ! i) = 0 \<and> idle_before (t # ts) i < length as
        then is_busy (ts' ! i) = 1 \<and> MIN_SERVICE_TIME \<le> remaining_service_time (ts' ! i) \<and>
             remaining_service_time (ts' ! i) \<le> MAX_SERVICE_TIME
        else ts' ! i = (t # ts) ! i"
      proof (cases i)
        case 0
        then show ?thesis using free as ts' t1 by (simp add: idle_before_0)
      next
        case (Suc j)
        then have j: "j < length ts" using i by simp
        have c: "idle_before (t # ts) (Suc j) < length as \<longleftrightarrow> idle_before ts j < length bs"
          using free as by (auto simp: idle_before_Cons)
        from ih j have "if is_busy (ts ! j) = 0 \<and> idle_before ts j < length bs
          then is_busy (ts1 ! j) = 1 \<and> MIN_SERVICE_TIME \<le> remaining_service_time (ts1 ! j) \<and>
               remaining_service_time (ts1 ! j) \<le> MAX_SERVICE_TIME
          else ts1 ! j = ts ! j" by blast
        then show ?thesis by (simp add: Suc ts' c)
      qed
    qed
    have rc: "stderr x' = stderr x \<longrightarrow>
      recorded st' = recorded st @ map (\<lambda>a. Some (m - arrival_of x a)) (b # take ?k bs)"
    proof
      assume e: "stderr x' = stderr x"
      from assign_teller_stderr[OF Cons.prems(2) a] obtain k1 where
        k1: "stderr x1 = stderr x @ replicate k1 realloc_failed" by blast
      from assign_tellers_stderr[OF ok1 r] obtain k2 where
        k2: "stderr x' = stderr x1 @ replicate k2 realloc_failed" by blast
      from stderr_unchanged[OF k1 k2 e] have e1: "stderr x1 = stderr x" "stderr x' = stderr x1"
        by simp_all
      from rec1 e1(1) have r1: "recorded st1 = recorded st @ [Some (m - arrival_of x b)]" by auto
      from ih e1(2) have r2: "recorded st' =
          recorded st1 @ map (\<lambda>a. Some (m - arrival_of x1 a)) (take ?k bs)" by blast
      have "map (\<lambda>a. Some (m - arrival_of x1 a)) (take ?k bs) =
            map (\<lambda>a. Some (m - arrival_of x a)) (take ?k bs)"
      proof (rule map_cong[OF refl])
        fix c assume "c \<in> set (take ?k bs)"
        then have "c \<in> set bs" by (rule in_set_takeD)
        with ar1 show "Some (m - arrival_of x1 c) = Some (m - arrival_of x c)" by simp
      qed
      with r1 r2 show "recorded st' =
          recorded st @ map (\<lambda>a. Some (m - arrival_of x a)) (b # take ?k bs)" by simp
    qed
    show ?thesis using l qf arf ix rc by (simp only: k)
  qed
qed

lemma enqueue_arrivals_stderr:
  "enqueue_arrivals n q m w = Inr (q', w') \<Longrightarrow> stderr w' = stderr w"
proof (induction n arbitrary: q w)
  case 0
  then show ?case by simp
next
  case (Suc n)
  from Suc.prems obtain q1 w1 where e: "enqueue q m w = Inr (q1, w1)"
    and r: "enqueue_arrivals n q1 m w1 = Inr (q', w')"
    by (auto simp: bind_err_Inr_iff)
  from Suc.IH[OF r] enqueue_frame[OF e] show ?case by simp
qed

lemma freed_teller_serves_same_minute:
  assumes q0: "queue_inv w (bank_queue s) []" and ok: "storage_ok (storage s)"
    and i: "i < length (tellers s)"
    and busy: "is_busy (tellers s ! i) \<noteq> 0" "remaining_service_time (tellers s ! i) = 1"
    and t: "tick_tellers (tellers s) = Inr ts1"
    and p: "get_poisson_random fp lambda w = Inr (n, w1)"
    and enough: "idle_before ts1 i < nat n"
    and step: "sim_minute fp lambda m s w = Inr (s', w')"
  shows "is_busy (ts1 ! i) = 0 \<and> is_busy (tellers s' ! i) = 1 \<and>
         MIN_SERVICE_TIME \<le> remaining_service_time (tellers s' ! i) \<and>
         remaining_service_time (tellers s' ! i) \<le> MAX_SERVICE_TIME \<and>
         (stderr w' = stderr w \<longrightarrow>
            recorded (storage s') =
              recorded (storage s) @
                replicate (min (idle_before ts1 (length ts1)) (nat n)) (Some 0))"
proof -
  from step obtain tsa n' w1' q1 w2 where
    t': "tick_tellers (tellers s) = Inr tsa" and
    p': "get_poisson_random fp lambda w = Inr (n', w1')" and
    e: "enqueue_arrivals (nat n') (bank_queue s) m w1' = Inr (q1, w2)" and
    a: "assign_tellers m tsa q1 (storage s) w2 = Inr (tellers s', bank_queue s', storage s', w')"
    by (rule sim_minute_cases)
  from t t' p p' have eq: "tsa = ts1" "n' = n" "w1' = w1" by simp_all
  \<comment> \<open>step 1 frees the teller\<close>
  from tick_tellers_effect[OF t] i busy have l1: "length ts1 = length (tellers s)"
    and f: "is_busy (ts1 ! i) = 0" by auto
  \<comment> \<open>step 2 puts the arrivals of this minute into the empty queue\<close>
  from get_poisson_random_frame[OF p] obtain j where w1: "w1 = w\<lparr>rand_pos := j\<rparr>" by blast
  have q1': "queue_inv w1 (bank_queue s) []"
    using q0 by (simp add: w1 queue_inv_def)
  from enqueue_arrivals_inv[OF q1' e[unfolded eq]] obtain new where
    new: "queue_inv w2 q1 new" "length new = nat n" "\<forall>a\<in>set new. arrival_of w2 a = m"
    by auto
  have se: "stderr w2 = stderr w" using enqueue_arrivals_stderr[OF e[unfolded eq]] by (simp add: w1)
  \<comment> \<open>step 3 assigns the tellers in index order\<close>
  note ef = assign_tellers_effect[OF new(1) ok a[unfolded eq]]
  from ef i l1 have "if is_busy (ts1 ! i) = 0 \<and> idle_before ts1 i < length new
      then is_busy (tellers s' ! i) = 1 \<and>
           MIN_SERVICE_TIME \<le> remaining_service_time (tellers s' ! i) \<and>
           remaining_service_time (tellers s' ! i) \<le> MAX_SERVICE_TIME
      else tellers s' ! i = ts1 ! i" by simp
  then have served: "is_busy (tellers s' ! i) = 1 \<and>
           MIN_SERVICE_TIME \<le> remaining_service_time (tellers s' ! i) \<and>
           remaining_service_time (tellers s' ! i) \<le> MAX_SERVICE_TIME"
    using f enough new(2) by simp
  have "stderr w' = stderr w \<longrightarrow>
            recorded (storage s') =
              recorded (storage s) @
                replicate (min (idle_before ts1 (length ts1)) (nat n)) (Some 0)"
  proof
    assume "stderr w' = stderr w"
    with ef se have r: "recorded (storage s') = recorded (storage s) @
        map (\<lambda>a. Some (m - arrival_of w2 a)) (take (idle_before ts1 (length ts1)) new)"
      by simp
    have "map (\<lambda>a. Some (m - arrival_of w2 a)) (take (idle_before ts1 (length ts1)) new) =
          map (\<lambda>a. Some 0) (take (idle_before ts1 (length ts1)) new)"
    proof (rule map_cong[OF refl])
      fix c assume "c \<in> set (take (idle_before ts1 (length ts1)) new)"
      then have "c \<in> set new" by (rule in_set_takeD)
      with new(3) show "Some (m - arrival_of w2 c) = Some 0" by simp
    qed
    also have "\<dots> = replicate (min (idle_before ts1 (length ts1)) (nat n)) (Some 0)"
      by (simp add: map_replicate_const new(2) min.commute)
    finally show "recorded (storage s') =
              recorded (storage s) @
                replicate (min (idle_before ts1 (length ts1)) (nat n)) (Some 0)"
      using r by simp
  qed
  with f served show ?thesis by blast
qed

text \<open>
  Claim C2. A minute of the loop runs its three steps in a fixed order, each on the result
  of the one before. Step 1: every busy teller's remaining time is decremented and a teller
  that reaches 0 becomes idle; an idle teller is left as it is. Step 2: the arrivals are
  sampled and enqueued behind the customers already waiting, each with arrival minute \<open>m\<close>.
  Step 3: in index order every idle teller takes the customer at the front of the queue,
  as long as one waits, and becomes busy with a service time of 2 or 3; the other tellers
  are unchanged, the customers not taken stay queued in their order, and unless a record is
  dropped the wait times \<open>m - arrival\<close> of the customers taken are appended in queue order.
  Each step completes when no remaining time is at the edge of \<^verbatim>\<open>int\<close>, the allocations
  succeed and the storage has room.
  So a teller at any index that has one minute of service left is freed in step 1 and, when
  nobody was waiting and enough customers arrive in this minute for the idle tellers before
  it, serves in step 3 a customer who arrived in step 2: it is busy again and every wait
  time recorded in this minute is 0.
\<close>
theorem phases_in_order:
  "(sim_minute fp lambda m s w = Inr (s', w') \<longrightarrow>
      (\<exists>ts1 n w1 q1 w2.
         tick_tellers (tellers s) = Inr ts1 \<and>
         get_poisson_random fp lambda w = Inr (n, w1) \<and>
         enqueue_arrivals (nat n) (bank_queue s) m w1 = Inr (q1, w2) \<and>
         assign_tellers m ts1 q1 (storage s) w2 =
           Inr (tellers s', bank_queue s', storage s', w') \<and>
         total_arrivals s' = total_arrivals s + n)) \<and>
   (tick_tellers vs = Inr vs' \<longrightarrow>
      length vs' = length vs \<and>
      (\<forall>i<length vs.
         (is_busy (vs ! i) = 0 \<longrightarrow> vs' ! i = vs ! i) \<and>
         (is_busy (vs ! i) \<noteq> 0 \<longrightarrow>
            remaining_service_time (vs' ! i) = remaining_service_time (vs ! i) - 1 \<and>
            is_busy (vs' ! i) =
              (if remaining_service_time (vs ! i) = 1 then 0 else is_busy (vs ! i))))) \<and>
   (queue_inv x q as \<and> enqueue_arrivals k q m x = Inr (q', x') \<longrightarrow>
      (\<exists>new. queue_inv x' q' (as @ new) \<and> length new = k \<and>
         (\<forall>a\<in>set new. arrival_of x' a = m) \<and>
         (\<forall>a\<in>set as. arrival_of x' a = arrival_of x a))) \<and>
   (queue_inv y qa bs \<and> storage_ok st \<and>
    assign_tellers m us qa st y = Inr (us', qa', st', y') \<longrightarrow>
      length us' = length us \<and>
      queue_inv y' qa' (drop (idle_before us (length us)) bs) \<and>
      (\<forall>b\<in>set (drop (idle_before us (length us)) bs). arrival_of y' b = arrival_of y b) \<and>
      (\<forall>i<length us.
         if is_busy (us ! i) = 0 \<and> idle_before us i < length bs
         then is_busy (us' ! i) = 1 \<and> MIN_SERVICE_TIME \<le> remaining_service_time (us' ! i) \<and>
              remaining_service_time (us' ! i) \<le> MAX_SERVICE_TIME
         else us' ! i = us ! i) \<and>
      (stderr y' = stderr y \<longrightarrow>
         recorded st' =
           recorded st @
             map (\<lambda>a. Some (m - arrival_of y a)) (take (idle_before us (length us)) bs))) \<and>
   ((\<forall>t\<in>set vs. is_busy t \<noteq> 0 \<longrightarrow>
        INT_MIN < remaining_service_time t \<and> remaining_service_time t \<le> INT_MAX) \<longrightarrow>
      (\<exists>vs'. tick_tellers vs = Inr vs')) \<and>
   (queue_inv x q as \<and> (\<forall>i<k. alloc_ok x (alloc_pos x + i)) \<and>
    customer_count q + int k \<le> INT_MAX \<longrightarrow>
      (\<exists>q' x'. enqueue_arrivals k q m x = Inr (q', x'))) \<and>
   (qs_inv w0 m arrived qa st y \<and> m \<le> INT_MAX \<and>
    count st + int (length us) \<le> capacity st \<longrightarrow>
      (\<exists>r. assign_tellers m us qa st y = Inr r)) \<and>
   (queue_inv w (bank_queue s) [] \<and> storage_ok (storage s) \<and> j < length (tellers s) \<and>
    is_busy (tellers s ! j) \<noteq> 0 \<and> remaining_service_time (tellers s ! j) = 1 \<and>
    tick_tellers (tellers s) = Inr ts1 \<and> get_poisson_random fp lambda w = Inr (n, w1) \<and>
    idle_before ts1 j < nat n \<and> sim_minute fp lambda m s w = Inr (s', w') \<longrightarrow>
      is_busy (ts1 ! j) = 0 \<and> is_busy (tellers s' ! j) = 1 \<and>
      MIN_SERVICE_TIME \<le> remaining_service_time (tellers s' ! j) \<and>
      remaining_service_time (tellers s' ! j) \<le> MAX_SERVICE_TIME \<and>
      (stderr w' = stderr w \<longrightarrow>
         recorded (storage s') =
           recorded (storage s) @
             replicate (min (idle_before ts1 (length ts1)) (nat n)) (Some 0))) \<and>
   (sim_inv w0 m s w \<and> 0 \<le> m \<and> is_empty (bank_queue s) \<and> tellers s = t # ts \<and>
    is_busy t \<noteq> 0 \<and> remaining_service_time t = 1 \<and>
    count (storage s) < capacity (storage s) \<and>
    get_poisson_random fp lambda w = Inr (n, w1) \<and> 0 < n \<and>
    sim_minute fp lambda m s w = Inr (s', w') \<longrightarrow>
      (\<exists>xs t' ts'. recorded (storage s') = recorded (storage s) @ Some 0 # xs \<and>
         tellers s' = t' # ts' \<and> is_busy t' = 1 \<and>
         MIN_SERVICE_TIME \<le> remaining_service_time t' \<and>
         remaining_service_time t' \<le> MAX_SERVICE_TIME))"
proof -
  have A: "sim_minute fp lambda m s w = Inr (s', w') \<longrightarrow>
      (\<exists>ts1 n w1 q1 w2.
         tick_tellers (tellers s) = Inr ts1 \<and>
         get_poisson_random fp lambda w = Inr (n, w1) \<and>
         enqueue_arrivals (nat n) (bank_queue s) m w1 = Inr (q1, w2) \<and>
         assign_tellers m ts1 q1 (storage s) w2 =
           Inr (tellers s', bank_queue s', storage s', w') \<and>
         total_arrivals s' = total_arrivals s + n)"
  proof
    assume "sim_minute fp lambda m s w = Inr (s', w')"
    then show "\<exists>ts1 n w1 q1 w2.
         tick_tellers (tellers s) = Inr ts1 \<and>
         get_poisson_random fp lambda w = Inr (n, w1) \<and>
         enqueue_arrivals (nat n) (bank_queue s) m w1 = Inr (q1, w2) \<and>
         assign_tellers m ts1 q1 (storage s) w2 =
           Inr (tellers s', bank_queue s', storage s', w') \<and>
         total_arrivals s' = total_arrivals s + n"
      by (rule sim_minute_cases) blast
  qed
  note B = tick_tellers_effect[of vs vs']
  have C: "queue_inv x q as \<and> enqueue_arrivals k q m x = Inr (q', x') \<longrightarrow>
      (\<exists>new. queue_inv x' q' (as @ new) \<and> length new = k \<and>
         (\<forall>a\<in>set new. arrival_of x' a = m) \<and>
         (\<forall>a\<in>set as. arrival_of x' a = arrival_of x a))"
    using enqueue_arrivals_inv[of x q as k m q' x'] by blast
  note D = assign_tellers_effect[of y qa bs st m us us' qa' st' y']
  note E = freed_teller_serves_same_minute[of w s j ts1 fp lambda n w1 m s' w']
  note F = freed_teller_serves_arrival[of w0 m s w t ts fp lambda n w1 s' w']
  note G1 = tick_tellers_succeeds[of vs]
  have G2: "queue_inv x q as \<and> (\<forall>i<k. alloc_ok x (alloc_pos x + i)) \<and>
    customer_count q + int k \<le> INT_MAX \<longrightarrow>
      (\<exists>q' x'. enqueue_arrivals k q m x = Inr (q', x'))"
    using enqueue_arrivals_succeeds[of x q as k m] by blast
  note G3 = assign_tellers_succeeds[of w0 m arrived qa st y us]
  show ?thesis
    apply (intro conjI)
    subgoal by (rule A)
    subgoal using B by blast
    subgoal by (rule C)
    subgoal using D by blast
    subgoal using G1 by blast
    subgoal by (rule G2)
    subgoal using G3 by blast
    subgoal using E by blast
    subgoal using F by blast
    done
qed

lemma freed_minute:
  "\<exists>w'. sim_minute real_platform 1 2 freed_state freed_world = Inr (freed_after, w') \<and>
        stderr w' = stderr freed_world"
  by (simp add: exec_defs freed_state_def freed_world_def freed_after_def gen_burst_def
           cong: bind_err_weak_cong)

lemma freed_inv: "sim_inv freed_world 2 freed_state freed_world"
proof -
  have "queue_inv freed_world (bank_queue freed_state) []"
    by (simp add: queue_inv_def freed_state_def INT_MAX_def)
  then have "\<exists>as. queue_inv freed_world (bank_queue freed_state) as \<and>
      (\<forall>a\<in>set as. 0 \<le> arrival_of freed_world a \<and> arrival_of freed_world a \<le> 2 - 1)"
    by (intro exI[of _ "[]"]) simp
  then show ?thesis
    by (simp add: sim_inv_def qs_inv_def storage_ok_def recorded_def drops_def teller_inv_def
          freed_state_def INT_MAX_def)
qed

theorem phases_in_order_witness:
  "(\<exists>w'. sim_minute real_platform 1 2 freed_state freed_world = Inr (freed_after, w')) \<and>
   tick_tellers (tellers freed_state) = Inr freed_ticked \<and>
   get_poisson_random real_platform 1 freed_world = Inr (2, freed_world\<lparr>rand_pos := 3\<rparr>) \<and>
   (\<exists>q1 w2 new.
      enqueue_arrivals 2 (bank_queue freed_state) 2 (freed_world\<lparr>rand_pos := 3\<rparr>) = Inr (q1, w2) \<and>
      queue_inv w2 q1 new \<and> length new = 2 \<and> list_all (\<lambda>a. arrival_of w2 a = 2) new) \<and>
   is_busy (freed_ticked ! 2) = 0 \<and> idle_before freed_ticked 2 = 1 \<and>
   is_busy (tellers freed_after ! 2) = 1 \<and>
   tellers freed_after ! 1 = freed_ticked ! 1 \<and>
   recorded (storage freed_after) = recorded (storage freed_state) @ [Some 0, Some 0]"
proof -
  let ?w1 = "freed_world\<lparr>rand_pos := 3\<rparr>"
  obtain w' where st: "sim_minute real_platform 1 2 freed_state freed_world = Inr (freed_after, w')"
    and se: "stderr w' = stderr freed_world"
    using freed_minute by blast
  have p: "get_poisson_random real_platform 1 freed_world = Inr (2, ?w1)"
    by (simp add: get_poisson_random_def poisson_loop.simps rand_def c_int_def INT_MIN_def
          INT_MAX_def real_platform_simps freed_world_def initial_world_def gen_burst_def)
  have t: "tick_tellers (tellers freed_state) = Inr freed_ticked"
    by (simp add: freed_state_def freed_ticked_def tick_teller_def c_int_def INT_MIN_def
          INT_MAX_def idle_teller_def)
  from st obtain ts1 n w1 q1 w2 where
    t': "tick_tellers (tellers freed_state) = Inr ts1" and
    p': "get_poisson_random real_platform 1 freed_world = Inr (n, w1)" and
    e': "enqueue_arrivals (nat n) (bank_queue freed_state) 2 w1 = Inr (q1, w2)" and
    a': "assign_tellers 2 ts1 q1 (storage freed_state) w2 =
           Inr (tellers freed_after, bank_queue freed_after, storage freed_after, w')"
    by (rule sim_minute_cases)
  from t t' p p' have eq: "ts1 = freed_ticked" "n = 2" "w1 = ?w1" by simp_all
  have e: "enqueue_arrivals 2 (bank_queue freed_state) 2 ?w1 = Inr (q1, w2)"
    using e' by (simp add: eq)
  have a: "assign_tellers 2 freed_ticked q1 (storage freed_state) w2 =
           Inr (tellers freed_after, bank_queue freed_after, storage freed_after, w')"
    using a' by (simp add: eq)
  have q0: "queue_inv ?w1 (bank_queue freed_state) []"
    "queue_inv freed_world (bank_queue freed_state) []"
    by (simp_all add: queue_inv_def freed_state_def INT_MAX_def)
  have ok: "storage_ok (storage freed_state)"
    by (simp add: storage_ok_def freed_state_def INT_MAX_def)
  have ib: "idle_before freed_ticked 2 = 1" "idle_before freed_ticked 3 = 2"
    "is_busy (freed_ticked ! 2) = 0"
    by (simp_all add: idle_before_def freed_ticked_def idle_teller_def eval_nat_numeral)
  have h: "is_empty (bank_queue freed_state)"
    "tellers freed_state = \<lparr>is_busy = 1, remaining_service_time = 1\<rparr> #
       [\<lparr>is_busy = 1, remaining_service_time = 3\<rparr>, \<lparr>is_busy = 1, remaining_service_time = 1\<rparr>]"
    "count (storage freed_state) < capacity (storage freed_state)"
    "is_busy (tellers freed_state ! 2) \<noteq> 0"
    "remaining_service_time (tellers freed_state ! 2) = 1"
    "length (tellers freed_state) = 3" "length freed_ticked = 3"
    by (simp_all add: freed_state_def freed_ticked_def is_empty_def)
  from enqueue_arrivals_inv[OF q0(1) e] obtain new where
    n: "queue_inv w2 q1 new" "length new = 2" by auto
  note th = phases_in_order[where fp = real_platform and lambda = 1 and m = 2
      and s = freed_state and w = freed_world and s' = freed_after and w' = w'
      and vs = "tellers freed_state" and vs' = freed_ticked
      and x = ?w1 and q = "bank_queue freed_state" and as = "[]" and k = 2
      and q' = q1 and x' = w2
      and y = w2 and qa = q1 and bs = new and st = "storage freed_state" and us = freed_ticked
      and us' = "tellers freed_after" and qa' = "bank_queue freed_after"
      and st' = "storage freed_after" and y' = w'
      and j = 2 and ?ts1.0 = freed_ticked and n = 2 and ?w1.0 = ?w1
      and ?w0.0 = freed_world and arrived = 5
      and t = "\<lparr>is_busy = 1, remaining_service_time = 1\<rparr>"
      and ts = "[\<lparr>is_busy = 1, remaining_service_time = 3\<rparr>,
                 \<lparr>is_busy = 1, remaining_service_time = 1\<rparr>]"]
  note A = th[THEN conjunct1]
  note B = th[THEN conjunct2, THEN conjunct1]
  note C = th[THEN conjunct2, THEN conjunct2, THEN conjunct1]
  note D = th[THEN conjunct2, THEN conjunct2, THEN conjunct2, THEN conjunct1]
  note G = th[THEN conjunct2, THEN conjunct2, THEN conjunct2, THEN conjunct2]
  note G1 = G[THEN conjunct1]
  note G2 = G[THEN conjunct2, THEN conjunct1]
  note G3 = G[THEN conjunct2, THEN conjunct2, THEN conjunct1]
  note E = G[THEN conjunct2, THEN conjunct2, THEN conjunct2, THEN conjunct1]
  note F = G[THEN conjunct2, THEN conjunct2, THEN conjunct2, THEN conjunct2]
  have "\<forall>t\<in>set (tellers freed_state). is_busy t \<noteq> 0 \<longrightarrow>
      INT_MIN < remaining_service_time t \<and> remaining_service_time t \<le> INT_MAX"
    by (simp add: freed_state_def INT_MIN_def INT_MAX_def)
  with G1 have c1: "\<exists>vs'. tick_tellers (tellers freed_state) = Inr vs'" by blast
  have "\<forall>i<2. alloc_ok ?w1 (alloc_pos ?w1 + i)"
    "customer_count (bank_queue freed_state) + int 2 \<le> INT_MAX"
    by (simp_all add: freed_world_def initial_world_def freed_state_def INT_MAX_def)
  with G2 q0(1) have c2: "\<exists>q' x'. enqueue_arrivals 2 (bank_queue freed_state) 2 ?w1 = Inr (q', x')"
    by blast
  have "qs_inv freed_world (2 - 1) 3 (bank_queue freed_state) (storage freed_state) freed_world"
    using freed_inv by (simp add: sim_inv_def freed_state_def)
  then have "qs_inv freed_world 2 3 (bank_queue freed_state) (storage freed_state) freed_world"
    by (rule qs_inv_mono) simp
  then have "qs_inv freed_world 2 3 (bank_queue freed_state) (storage freed_state) ?w1"
    using qs_inv_frame[of ?w1 freed_world freed_world 2 3 "bank_queue freed_state"
        "storage freed_state"] by simp
  from enqueue_arrivals_qs_inv[OF this e]
  have "qs_inv freed_world 2 5 q1 (storage freed_state) w2" by simp
  moreover have "(2::int) \<le> INT_MAX"
    "count (storage freed_state) + int (length freed_ticked) \<le> capacity (storage freed_state)"
    by (simp_all add: freed_state_def freed_ticked_def INT_MAX_def)
  ultimately have c3: "\<exists>r. assign_tellers 2 freed_ticked q1 (storage freed_state) w2 = Inr r"
    using G3 by blast
  from C q0(1) e obtain new' where
    n': "queue_inv w2 q1 new'" "length new' = 2" "\<forall>a\<in>set new'. arrival_of w2 a = 2" by auto
  from B t have "length freed_ticked = length (tellers freed_state)" by blast
  from D n(1) ok a
  have "\<forall>i<length freed_ticked.
         if is_busy (freed_ticked ! i) = 0 \<and> idle_before freed_ticked i < length new
         then is_busy (tellers freed_after ! i) = 1 \<and>
              MIN_SERVICE_TIME \<le> remaining_service_time (tellers freed_after ! i) \<and>
              remaining_service_time (tellers freed_after ! i) \<le> MAX_SERVICE_TIME
         else tellers freed_after ! i = freed_ticked ! i" by blast
  then have keep: "tellers freed_after ! 1 = freed_ticked ! 1"
    by (simp add: freed_ticked_def)
  from E q0(2) ok h(4,5,6) t p ib(1) st
  have "is_busy (tellers freed_after ! 2) = 1 \<and>
      (stderr w' = stderr freed_world \<longrightarrow>
         recorded (storage freed_after) =
           recorded (storage freed_state) @
             replicate (min (idle_before freed_ticked (length freed_ticked)) (nat 2)) (Some 0))"
    by simp
  with se ib(2) h(7) have served: "is_busy (tellers freed_after ! 2) = 1"
    "recorded (storage freed_after) = recorded (storage freed_state) @ [Some 0, Some 0]"
    by (simp_all add: eval_nat_numeral)
  from F freed_inv h(1,2,3) p st obtain xs t' ts' where
    "recorded (storage freed_after) = recorded (storage freed_state) @ Some 0 # xs"
    "tellers freed_after = t' # ts'" "is_busy t' = 1"
    by simp blast
  from n' have "\<exists>q1 w2 new.
      enqueue_arrivals 2 (bank_queue freed_state) 2 ?w1 = Inr (q1, w2) \<and>
      queue_inv w2 q1 new \<and> length new = 2 \<and> list_all (\<lambda>a. arrival_of w2 a = 2) new"
    using e by (auto simp: list_all_iff)
  with st t p ib keep served show ?thesis by blast
qed

section \<open>A run in which the storage cannot grow\<close>

text \<open>
  A burst of \<open>n\<close> arrivals: \<open>n\<close> draws of \<open>RAND_MAX\<close> keep the running product at 1, a draw of
  0 ends the loop. Enqueueing succeeds while the allocator does, and with no memory left
  every idle teller still takes a customer, but a full storage no longer records the wait.
\<close>

lemma running_product_snoc:
  "running_product fp w p (Suc j) =
     fp_mul fp (running_product fp w p j)
       (uniform fp (rand_gen w (rand_seed w) (rand_pos w + j)))"
proof (induction j arbitrary: w p)
  case 0
  then show ?case by (simp add: rand_def)
next
  case (Suc j)
  have "running_product fp w p (Suc (Suc j)) =
        running_product fp (snd (rand w)) (fp_mul fp p (uniform fp (fst (rand w)))) (Suc j)"
    by simp
  also have "\<dots> = fp_mul fp
       (running_product fp (snd (rand w)) (fp_mul fp p (uniform fp (fst (rand w)))) j)
       (uniform fp (rand_gen (snd (rand w)) (rand_seed (snd (rand w))) (rand_pos (snd (rand w)) + j)))"
    by (rule Suc.IH)
  finally show ?case by (simp add: rand_def)
qed

lemma running_product_ones:
  "(\<forall>i<j. rand_gen w (rand_seed w) (rand_pos w + i) = 2147483647) \<Longrightarrow>
   running_product real_platform w p j = p"
proof (induction j)
  case 0
  then show ?case by simp
next
  case (Suc j)
  then have "running_product real_platform w p j = p" by simp
  moreover have "rand_gen w (rand_seed w) (rand_pos w + j) = 2147483647" using Suc.prems by simp
  ultimately show ?case
    by (simp only: running_product_snoc) (simp add: uniform_def real_platform_simps)
qed

lemma poisson_burst:
  assumes ones: "\<forall>i<n. rand_gen w (rand_seed w) (rand_pos w + i) = 2147483647"
    and zero: "rand_gen w (rand_seed w) (rand_pos w + n) = 0"
    and n: "int n < INT_MAX"
  shows "get_poisson_random real_platform 1 w = Inr (int n, w\<lparr>rand_pos := rand_pos w + n + 1\<rparr>)"
proof -
  have 1: "\<forall>j. 1 \<le> j \<and> j \<le> n \<longrightarrow>
      fp_gt real_platform (running_product real_platform w 1 j) (exp (- 1))"
  proof (intro allI impI)
    fix j assume "1 \<le> j \<and> j \<le> n"
    then have "running_product real_platform w 1 j = 1"
      using ones by (intro running_product_ones) simp
    then show "fp_gt real_platform (running_product real_platform w 1 j) (exp (- 1))"
      by (simp add: real_platform_simps)
  qed
  have "running_product real_platform w 1 n = 1" using ones by (rule running_product_ones)
  then have 2: "\<not> fp_gt real_platform (running_product real_platform w 1 (n + 1)) (exp (- 1))"
    using zero
    by (simp only: Suc_eq_plus1[symmetric] running_product_snoc)
       (simp add: uniform_def real_platform_simps not_less [symmetric] del: not_less)
  have "poisson_loop real_platform (exp (- 1)) 1 0 w =
        Inr (0 + int n, w\<lparr>rand_pos := rand_pos w + n + 1\<rparr>)"
    using n 1 2 by (intro poisson_loop_complete) (simp_all add: INT_MIN_def)
  then show ?thesis by (simp add: get_poisson_random_def real_platform_simps)
qed

lemma assign_teller_serves:
  assumes i: "qs_inv ws m arrived q st w" and m: "m \<le> INT_MAX"
    and cap: "capacity st * 2 \<le> INT_MAX" and oom: "out_of_memory w"
    and go: "is_busy t = 0" "\<not> is_empty q"
  shows "\<exists>t' q' st' w'. assign_teller m t q st w = Inr (t', q', st', w') \<and> serving t' \<and>
           customer_count q' = customer_count q - 1 \<and> capacity st' = capacity st \<and>
           count st' = min (capacity st) (count st + 1) \<and>
           rand_gen w' = rand_gen w \<and> rand_seed w' = rand_seed w \<and>
           rand_pos w' = rand_pos w + 1 \<and> out_of_memory w' \<and> qs_inv ws m arrived q' st' w'"
proof -
  from i obtain as where q: "queue_inv w q as"
    and ar: "\<forall>a\<in>set as. 0 \<le> arrival_of w a \<and> arrival_of w a \<le> m"
    and ok: "storage_ok st"
    by (auto simp: qs_inv_def)
  from go(2) obtain a bs where as: "as = a # bs"
    using queue_inv_empty_iff[OF q] by (cases as) auto
  from dequeue_inv[OF q[unfolded as]] obtain q' c where
    d: "dequeue q w = Inr (Some a, q')" and q': "queue_inv w q' bs" and c: "heap w a = Some c"
    by auto
  have cc: "customer_count q' = customer_count q - 1"
    using q q' as by (simp add: queue_inv_def)
  have "0 \<le> arrival_of w a \<and> arrival_of w a \<le> m" using ar as by simp
  then have wt: "0 \<le> m - arrival_minute c" "m - arrival_minute c \<le> INT_MAX"
    using c m by (simp_all add: arrival_of_def)
  then have ci: "c_int (m - arrival_minute c) = Inr (m - arrival_minute c)"
    by (simp add: c_int_def INT_MIN_def)
  have "\<exists>st' w1. add_wait_time st (m - arrival_minute c) w = Inr (st', w1) \<and>
          capacity st' = capacity st \<and> count st' = min (capacity st) (count st + 1) \<and>
          rand_gen w1 = rand_gen w \<and> rand_seed w1 = rand_seed w \<and> rand_pos w1 = rand_pos w \<and>
          out_of_memory w1"
  proof (cases "count st = capacity st")
    case True
    have "INT_MIN \<le> capacity st * 2" using ok by (simp add: storage_ok_def INT_MIN_def)
    moreover have "\<not> alloc_ok w (alloc_pos w)" using oom by (simp add: out_of_memory_def)
    ultimately show ?thesis
      using add_wait_time_fail[OF True _ cap, of w "m - arrival_minute c"] True oom
      by (simp add: out_of_memory_def)
  next
    case False
    then have "count st < capacity st" using ok by (simp add: storage_ok_def)
    then show ?thesis
      using add_wait_time_room[OF ok False, of "m - arrival_minute c" w] oom by simp
  qed
  then obtain st' w1 where a: "add_wait_time st (m - arrival_minute c) w = Inr (st', w1)"
    and st': "capacity st' = capacity st" "count st' = min (capacity st) (count st + 1)"
    and w1: "rand_gen w1 = rand_gen w" "rand_seed w1 = rand_seed w" "rand_pos w1 = rand_pos w"
      "out_of_memory w1"
    by blast
  let ?t = "t\<lparr>is_busy := 1, remaining_service_time := fst (get_service_time w1)\<rparr>"
  let ?w = "free_Customer a (snd (get_service_time w1))"
  have r: "assign_teller m t q st w = Inr (?t, q', st', ?w)"
    using go d c ci a by (simp add: assign_teller_def split_beta)
  have "serving ?t"
    using get_service_time_range[of w1]
    by (simp add: serving_def MIN_SERVICE_TIME_def MAX_SERVICE_TIME_def)
  moreover have "rand_gen ?w = rand_gen w" "rand_seed ?w = rand_seed w"
    "rand_pos ?w = rand_pos w + 1" "out_of_memory ?w"
    using w1 by (simp_all add: free_Customer_def get_service_time_frame out_of_memory_def)
  moreover have "qs_inv ws m arrived q' st' ?w" using i r by (rule assign_teller_qs_inv)
  ultimately show ?thesis using r cc st' by blast
qed

lemma assign_tellers_serve:
  "qs_inv ws m arrived q st w \<Longrightarrow> m \<le> INT_MAX \<Longrightarrow> capacity st * 2 \<le> INT_MAX \<Longrightarrow>
   out_of_memory w \<Longrightarrow> \<forall>t\<in>set ts. is_busy t = 0 \<Longrightarrow> int (length ts) \<le> customer_count q \<Longrightarrow>
   \<exists>ts' q' st' w'. assign_tellers m ts q st w = Inr (ts', q', st', w') \<and>
      (\<forall>t\<in>set ts'. serving t) \<and>
      customer_count q' = customer_count q - int (length ts) \<and>
      count st' = min (capacity st) (count st + int (length ts)) \<and>
      rand_gen w' = rand_gen w \<and> rand_seed w' = rand_seed w \<and>
      rand_pos w' = rand_pos w + length ts \<and> qs_inv ws m arrived q' st' w'"
proof (induction ts arbitrary: q st w)
  case Nil
  then have "count st \<le> capacity st" by (simp add: qs_inv_def storage_ok_def)
  with Nil show ?case by simp
next
  case (Cons t ts)
  from Cons.prems(1) obtain as where q: "queue_inv w q as" by (auto simp: qs_inv_def)
  have "customer_count q \<noteq> 0" using Cons.prems(6) by simp
  then have ne: "\<not> is_empty q"
    using q queue_inv_empty_iff[OF q] by (auto simp: queue_inv_def)
  have idle: "is_busy t = 0" using Cons.prems(5) by simp
  from assign_teller_serves[OF Cons.prems(1,2,3,4) idle ne]
  obtain t1 q1 st1 w1 where a: "assign_teller m t q st w = Inr (t1, q1, st1, w1)"
    and t1: "serving t1" and q1: "customer_count q1 = customer_count q - 1"
    and st1: "capacity st1 = capacity st" "count st1 = min (capacity st) (count st + 1)"
    and w1: "rand_gen w1 = rand_gen w" "rand_seed w1 = rand_seed w"
      "rand_pos w1 = rand_pos w + 1" "out_of_memory w1"
    and i1: "qs_inv ws m arrived q1 st1 w1"
    by blast
  have p: "capacity st1 * 2 \<le> INT_MAX" "\<forall>t\<in>set ts. is_busy t = 0"
    "int (length ts) \<le> customer_count q1"
    using Cons.prems st1 q1 by simp_all
  from Cons.IH[OF i1 Cons.prems(2) p(1) w1(4) p(2,3)]
  obtain ts2 q2 st2 w2 where r: "assign_tellers m ts q1 st1 w1 = Inr (ts2, q2, st2, w2)"
    and ts2: "\<forall>t\<in>set ts2. serving t"
    and q2: "customer_count q2 = customer_count q1 - int (length ts)"
    and st2: "count st2 = min (capacity st1) (count st1 + int (length ts))"
    and w2: "rand_gen w2 = rand_gen w1" "rand_seed w2 = rand_seed w1"
      "rand_pos w2 = rand_pos w1 + length ts"
    and i2: "qs_inv ws m arrived q2 st2 w2"
    by blast
  have "assign_tellers m (t # ts) q st w = Inr (t1 # ts2, q2, st2, w2)"
    using a r by simp
  moreover have "\<forall>t\<in>set (t1 # ts2). serving t" using t1 ts2 by simp
  moreover have "customer_count q2 = customer_count q - int (length (t # ts))"
    using q1 q2 by simp
  moreover have "count st2 = min (capacity st) (count st + int (length (t # ts)))"
    using st1 st2 by simp
  moreover have "rand_gen w2 = rand_gen w" "rand_seed w2 = rand_seed w"
    "rand_pos w2 = rand_pos w + length (t # ts)"
    using w1 w2 by simp_all
  ultimately show ?case using i2 by blast
qed

text \<open>Minutes in which nobody waits and nobody arrives: only the tellers change.\<close>

lemma tick_teller_winding_down:
  "winding_down t \<Longrightarrow> \<exists>t'. tick_teller t = Inr t' \<and> winding_down t'"
  by (auto simp: winding_down_def tick_teller_def c_int_def INT_MIN_def INT_MAX_def Let_def)

lemma tick_tellers_winding_down:
  "list_all winding_down ts \<Longrightarrow> \<exists>ts'. tick_tellers ts = Inr ts' \<and> list_all winding_down ts'"
proof (induction ts)
  case Nil
  then show ?case by simp
next
  case (Cons t ts)
  then obtain t' ts' where "tick_teller t = Inr t'" "winding_down t'"
    "tick_tellers ts = Inr ts'" "list_all winding_down ts'"
    using tick_teller_winding_down[of t] by auto
  then show ?case by simp
qed

lemma calm_minute:
  assumes "calm s w"
  shows "\<exists>ts'. sim_minute real_platform lambda m s w =
            Inr (s\<lparr>tellers := ts'\<rparr>, w\<lparr>rand_pos := rand_pos w + 1\<rparr>) \<and>
          calm (s\<lparr>tellers := ts'\<rparr>) (w\<lparr>rand_pos := rand_pos w + 1\<rparr>)"
proof -
  from assms obtain ts' where t: "tick_tellers (tellers s) = Inr ts'"
    and ts': "list_all winding_down ts'"
    using tick_tellers_winding_down[of "tellers s"] by (auto simp: calm_def)
  have p: "get_poisson_random real_platform lambda w = Inr (0, w\<lparr>rand_pos := rand_pos w + 1\<rparr>)"
    using assms by (intro poisson_zero_draw) (simp add: calm_def zero_from_def)
  have c: "c_int (total_arrivals s) = Inr (total_arrivals s)"
    using assms by (simp add: calm_def c_int_def)
  have e: "is_empty (bank_queue s)" using assms by (simp add: calm_def)
  have "sim_minute real_platform lambda m s w =
          Inr (s\<lparr>tellers := ts'\<rparr>, w\<lparr>rand_pos := rand_pos w + 1\<rparr>)"
    by (simp add: sim_minute_def t p c assign_tellers_empty[OF e])
  moreover have "calm (s\<lparr>tellers := ts'\<rparr>) (w\<lparr>rand_pos := rand_pos w + 1\<rparr>)"
    using assms ts' by (simp add: calm_def zero_from_def)
  ultimately show ?thesis by blast
qed

lemma calm_loop:
  "calm s w \<Longrightarrow> m \<le> SIMULATION_MINUTES \<Longrightarrow>
   \<exists>ts' w'. sim_loop real_platform lambda m s w = Inr (s\<lparr>tellers := ts'\<rparr>, w') \<and>
            stderr w' = stderr w"
proof (induction n \<equiv> "nat (SIMULATION_MINUTES - m)" arbitrary: m s w)
  case 0
  then have "sim_loop real_platform lambda m s w = Inr (s\<lparr>tellers := tellers s\<rparr>, w)"
    by (subst sim_loop.simps) simp
  then show ?case by blast
next
  case (Suc n)
  then have lt: "m < SIMULATION_MINUTES" by simp
  let ?w1 = "w\<lparr>rand_pos := rand_pos w + 1\<rparr>"
  from calm_minute[OF Suc.prems(1), of lambda m] obtain ts1 where
    sm: "sim_minute real_platform lambda m s w = Inr (s\<lparr>tellers := ts1\<rparr>, ?w1)"
    and c1: "calm (s\<lparr>tellers := ts1\<rparr>) ?w1"
    by blast
  have n: "n = nat (SIMULATION_MINUTES - (m + 1))" using Suc.hyps(2) by simp
  from Suc.hyps(1)[OF n c1] lt obtain ts' w' where
    "sim_loop real_platform lambda (m + 1) (s\<lparr>tellers := ts1\<rparr>) ?w1 =
       Inr (s\<lparr>tellers := ts1\<rparr>\<lparr>tellers := ts'\<rparr>, w')" "stderr w' = stderr ?w1"
    by auto
  then have "sim_loop real_platform lambda m s w = Inr (s\<lparr>tellers := ts'\<rparr>, w') \<and>
             stderr w' = stderr w"
    using lt sm by (subst sim_loop.simps) simp
  then show ?case by blast
qed


lemma minute0_B:
  "\<exists>q st ts w.
     sim_minute real_platform 1 0 (initial_sim 101) (started world_B) =
       Inr (\<lparr>bank_queue = q, storage = st, tellers = ts, total_arrivals = 101\<rparr>, w) \<and>
     customer_count q = 0 \<and> count st = 100 \<and>
     calm \<lparr>bank_queue = q, storage = st, tellers = ts, total_arrivals = 101\<rparr> w"
proof -
  let ?w0 = "started world_B"
  let ?s0 = "initial_sim 101"
  let ?w1 = "?w0\<lparr>rand_pos := rand_pos ?w0 + 101 + 1\<rparr>"
  have w0: "rand_gen ?w0 = gen_burst 101" "rand_seed ?w0 = 0" "rand_pos ?w0 = 0"
    "alloc_pos ?w0 = 4" "alloc_ok ?w0 = (\<lambda>n. n < 105)"
    by (simp_all add: started_def world_B_def initial_world_def to_unsigned_def UINT_MAX_def)
  have t: "tick_tellers (tellers ?s0) = Inr (tellers ?s0)"
    by (intro tick_tellers_idle) (simp add: initial_sim_def)
  have p: "get_poisson_random real_platform 1 ?w0 = Inr (int 101, ?w1)"
    by (intro poisson_burst) (simp_all add: w0 gen_burst_def INT_MAX_def)
  have c: "c_int (total_arrivals ?s0 + 101) = Inr 101"
    by (simp add: initial_sim_def c_int_def INT_MIN_def INT_MAX_def)
  have "sim_inv world_B 0 ?s0 ?w0" by (rule initial_sim_inv)
  then have "qs_inv world_B (- 1) 0 (bank_queue ?s0) (storage ?s0) ?w0"
    by (simp add: sim_inv_def initial_sim_def)
  then have "qs_inv world_B 0 0 (bank_queue ?s0) (storage ?s0) ?w0"
    by (rule qs_inv_mono) simp
  then have i1: "qs_inv world_B 0 0 (bank_queue ?s0) (storage ?s0) ?w1"
    by (simp add: qs_inv_def queue_inv_def arrival_of_def drops_def)
  have q0: "queue_inv ?w1 (bank_queue ?s0) []"
    by (simp add: queue_inv_def initial_sim_def INT_MAX_def)
  have "\<forall>i<101. alloc_ok ?w1 (alloc_pos ?w1 + i)" by (simp add: w0)
  moreover have "customer_count (bank_queue ?s0) + int 101 \<le> INT_MAX"
    by (simp add: initial_sim_def INT_MAX_def)
  ultimately obtain q1 w2 where
    e: "enqueue_arrivals 101 (bank_queue ?s0) 0 ?w1 = Inr (q1, w2)"
    and w2: "alloc_pos w2 = alloc_pos ?w1 + 101" "alloc_ok w2 = alloc_ok ?w1"
      "rand_gen w2 = rand_gen ?w1" "rand_seed w2 = rand_seed ?w1" "rand_pos w2 = rand_pos ?w1"
    using enqueue_arrivals_succeeds[OF q0, of 101 0] by blast
  from enqueue_arrivals_inv[OF q0 e] have c1: "customer_count q1 = 101"
    by (auto simp: queue_inv_def)
  from enqueue_arrivals_qs_inv[OF i1 e]
  have i2: "qs_inv world_B 0 101 q1 (storage ?s0) w2" by simp
  have oom: "out_of_memory w2" by (simp add: out_of_memory_def w2 w0)
  have st0: "capacity (storage ?s0) = 100" "count (storage ?s0) = 0"
    by (simp_all add: initial_sim_def INITIAL_STORAGE_CAPACITY_def)
  have "(0::int) \<le> INT_MAX" "capacity (storage ?s0) * 2 \<le> INT_MAX"
    "\<forall>t\<in>set (tellers ?s0). is_busy t = 0" "int (length (tellers ?s0)) \<le> customer_count q1"
    by (simp_all add: st0 c1 INT_MAX_def) (simp_all add: initial_sim_def)
  from assign_tellers_serve[OF i2 this(1,2) oom this(3,4)]
  obtain ts2 q2 st2 w3 where
    a: "assign_tellers 0 (tellers ?s0) q1 (storage ?s0) w2 = Inr (ts2, q2, st2, w3)"
    and ts2: "\<forall>t\<in>set ts2. serving t"
    and c2: "customer_count q2 = customer_count q1 - int (length (tellers ?s0))"
    and n2: "count st2 = min (capacity (storage ?s0))
                              (count (storage ?s0) + int (length (tellers ?s0)))"
    and w3: "rand_gen w3 = rand_gen w2" "rand_seed w3 = rand_seed w2"
      "rand_pos w3 = rand_pos w2 + length (tellers ?s0)"
    and i3: "qs_inv world_B 0 101 q2 st2 w3"
    by blast
  have l: "length (tellers ?s0) = 101" by (simp add: initial_sim_def)
  have c2': "customer_count q2 = 0" using c2 c1 l by simp
  have n2': "count st2 = 100" using n2 st0 l by simp
  from i3 obtain as where qi: "queue_inv w3 q2 as" by (auto simp: qs_inv_def)
  then have "as = []" using c2' by (simp add: queue_inv_def)
  then have em: "is_empty q2" using queue_inv_empty_iff[OF qi] by simp
  have wd: "list_all winding_down ts2"
    using ts2 by (auto simp: list_all_iff serving_def winding_down_def)
  have z: "zero_from (rand_gen w3) (rand_seed w3) (rand_pos w3)"
    by (simp add: w3 w2 w0 l gen_burst_zero_from)
  let ?s1 = "\<lparr>bank_queue = q2, storage = st2, tellers = ts2, total_arrivals = 101\<rparr>"
  have "sim_minute real_platform 1 0 ?s0 ?w0 = Inr (?s1, w3)"
    using t p c e a by (simp add: sim_minute_def)
  moreover have "calm ?s1 w3"
    using em wd z by (simp add: calm_def INT_MIN_def INT_MAX_def)
  ultimately show ?thesis using c2' n2' by blast
qed

lemma run_B:
  "\<exists>s w'. run_simulation real_platform 1 101 world_B = Inr (s, w') \<and>
      total_arrivals s = 101 \<and> count (storage s) = 100 \<and> customer_count (bank_queue s) = 0"
proof -
  from minute0_B obtain q st ts w where
    m: "sim_minute real_platform 1 0 (initial_sim 101) (started world_B) =
         Inr (\<lparr>bank_queue = q, storage = st, tellers = ts, total_arrivals = 101\<rparr>, w)"
    and n: "customer_count q = 0" "count st = 100"
    and c: "calm \<lparr>bank_queue = q, storage = st, tellers = ts, total_arrivals = 101\<rparr> w"
    by blast
  from calm_loop[OF c, of 1 1] obtain ts' w' where
    "sim_loop real_platform 1 1 \<lparr>bank_queue = q, storage = st, tellers = ts, total_arrivals = 101\<rparr> w
       = Inr (\<lparr>bank_queue = q, storage = st, tellers = ts, total_arrivals = 101\<rparr>\<lparr>tellers := ts'\<rparr>, w')"
    by (auto simp: SIMULATION_MINUTES_def)
  then have "sim_loop real_platform 1 0 (initial_sim 101) (started world_B) =
      Inr (\<lparr>bank_queue = q, storage = st, tellers = ts', total_arrivals = 101\<rparr>, w')"
    using m by (subst sim_loop.simps) (simp add: SIMULATION_MINUTES_def)
  moreover have "alloc_ok world_B (alloc_pos world_B) \<and> alloc_ok world_B (alloc_pos world_B + 1) \<and>
      alloc_ok world_B (alloc_pos world_B + 2) \<and> alloc_ok world_B (alloc_pos world_B + 3)"
    by (simp add: world_B_def initial_world_def)
  ultimately have "run_simulation real_platform 1 101 world_B =
      Inr (\<lparr>bank_queue = q, storage = st, tellers = ts', total_arrivals = 101\<rparr>, w')"
    by (simp add: run_simulation_unfold)
  then show ?thesis using n by simp
qed

text \<open>
  The conservation law of claim C1 fails as stated: with 101 tellers, 101 arrivals in minute
  0 and no memory left for the storage to grow, all customers are served, 100 wait times
  are recorded and the queue ends empty, so 101 - 100 is not the size of the queue.
\<close>

theorem conservation_fails_without_memory:
  "simulation_summary real_platform 1 101 world_B = Inr (101, 100, 0) \<and>
   \<not> conserved (101, 100, 0)"
proof -
  from run_B obtain s w' where "run_simulation real_platform 1 101 world_B = Inr (s, w')"
    "total_arrivals s = 101" "count (storage s) = 100" "customer_count (bank_queue s) = 0"
    by blast
  then show ?thesis by (simp add: simulation_summary_def conserved_def)
qed

section \<open>The random source\<close>

text \<open>
  Two runs in step. Every function of the simulation reads the generator and the allocator
  only through the values still to come, and the heap only through the queue, so two runs
  that agree on those go through related states and end alike.
\<close>

lemma same_draws_shift:
  assumes "same_draws w1 w2"
  shows "same_draws (w1\<lparr>rand_pos := rand_pos w1 + d\<rparr>) (w2\<lparr>rand_pos := rand_pos w2 + d\<rparr>)"
proof -
  have "rand_gen w1 (rand_seed w1) (rand_pos w1 + d + i) =
        rand_gen w2 (rand_seed w2) (rand_pos w2 + d + i)" for i
    using assms[unfolded same_draws_def, rule_format, of "d + i"] by (simp add: add.assoc)
  then show ?thesis by (simp add: same_draws_def)
qed

lemma same_allocs_shift:
  assumes "same_allocs w1 w2"
  shows "alloc_ok w1 (alloc_pos w1 + d + i) = alloc_ok w2 (alloc_pos w2 + d + i)"
  using assms[unfolded same_allocs_def, rule_format, of "d + i"] by (simp add: add.assoc)

lemma world_rel_rand_pos:
  "world_rel w1 w2 \<Longrightarrow>
   world_rel (w1\<lparr>rand_pos := rand_pos w1 + d\<rparr>) (w2\<lparr>rand_pos := rand_pos w2 + d\<rparr>)"
  using same_draws_shift[of w1 w2 d] by (simp add: world_rel_def same_allocs_def)

lemma same_draws_first: "same_draws w1 w2 \<Longrightarrow> fst (rand w1) = fst (rand w2)"
  using same_draws_def[of w1 w2] by (simp add: rand_def) (metis add.right_neutral)

text \<open>The Poisson loop reads the generator only through its coming values.\<close>

lemma poisson_loop_rel:
  "same_draws w1 w2 \<Longrightarrow>
   (\<exists>e. poisson_loop fp L p k w1 = Inl e \<and> poisson_loop fp L p k w2 = Inl e) \<or>
   (\<exists>n d. poisson_loop fp L p k w1 = Inr (n, w1\<lparr>rand_pos := rand_pos w1 + d\<rparr>) \<and>
          poisson_loop fp L p k w2 = Inr (n, w2\<lparr>rand_pos := rand_pos w2 + d\<rparr>))"
proof (induction fp L p k w1 arbitrary: w2 rule: poisson_loop.induct)
  case (1 fp L p k w1)
  let ?p1 = "fp_mul fp p (uniform fp (fst (rand w1)))"
  have r: "fst (rand w2) = fst (rand w1)" using same_draws_first[OF "1.prems"] by simp
  have s1: "snd (rand w1) = w1\<lparr>rand_pos := rand_pos w1 + 1\<rparr>"
    "snd (rand w2) = w2\<lparr>rand_pos := rand_pos w2 + 1\<rparr>" by (simp_all add: rand_def)
  show ?case
  proof (cases "INT_MIN \<le> k + 1 \<and> k + 1 \<le> INT_MAX")
    case False
    then show ?thesis by (subst (1 2 3 4) poisson_loop_unfold) auto
  next
    case True
    then have c: "c_int (k + 1) = Inr (k + 1)" by (simp add: c_int_def)
    show ?thesis
    proof (cases "fp_gt fp ?p1 L")
      case False
      have "poisson_loop fp L p k w1 = Inr (k, w1\<lparr>rand_pos := rand_pos w1 + 1\<rparr>)"
        using True False by (subst poisson_loop_unfold) (simp add: s1)
      moreover have "poisson_loop fp L p k w2 = Inr (k, w2\<lparr>rand_pos := rand_pos w2 + 1\<rparr>)"
        using True False r by (subst poisson_loop_unfold) (simp add: s1)
      ultimately show ?thesis by blast
    next
      case gt: True
      have u1: "poisson_loop fp L p k w1 = poisson_loop fp L ?p1 (k + 1) (snd (rand w1))"
        using True gt by (subst poisson_loop_unfold) simp
      have u2: "poisson_loop fp L p k w2 = poisson_loop fp L ?p1 (k + 1) (snd (rand w2))"
        using True gt r by (subst poisson_loop_unfold) simp
      have s: "same_draws (snd (rand w1)) (snd (rand w2))"
        using same_draws_shift[OF "1.prems", of 1] by (simp add: rand_def)
      have g: "fp_gt fp (fp_mul fp p (fp_div fp (fp_of_int fp (int (fst (rand w1))))
                 (fp_of_int fp (RAND_MAX fp)))) L"
        using gt by (simp add: uniform_def)
      from "1.IH"[OF c prod.collapse refl refl g s] consider
        (err) e where "poisson_loop fp L ?p1 (k + 1) (snd (rand w1)) = Inl e"
          "poisson_loop fp L ?p1 (k + 1) (snd (rand w2)) = Inl e"
        | (ok) n d where
          "poisson_loop fp L ?p1 (k + 1) (snd (rand w1)) =
             Inr (n, (snd (rand w1))\<lparr>rand_pos := rand_pos (snd (rand w1)) + d\<rparr>)"
          "poisson_loop fp L ?p1 (k + 1) (snd (rand w2)) =
             Inr (n, (snd (rand w2))\<lparr>rand_pos := rand_pos (snd (rand w2)) + d\<rparr>)"
        by (auto simp: uniform_def)
      then show ?thesis
      proof cases
        case err
        then show ?thesis using u1 u2 by simp
      next
        case ok
        have "poisson_loop fp L p k w1 = Inr (n, w1\<lparr>rand_pos := rand_pos w1 + (1 + d)\<rparr>)"
          using ok(1) u1 by (simp add: s1)
        moreover have "poisson_loop fp L p k w2 = Inr (n, w2\<lparr>rand_pos := rand_pos w2 + (1 + d)\<rparr>)"
          using ok(2) u2 by (simp add: s1)
        ultimately show ?thesis by blast
      qed
    qed
  qed
qed


lemma world_rel_advanced:
  assumes "world_rel w1 w2" "advanced w1 v1 r d" "advanced w2 v2 r d"
  shows "world_rel v1 v2"
proof -
  have "same_draws (w1\<lparr>rand_pos := rand_pos w1 + r\<rparr>) (w2\<lparr>rand_pos := rand_pos w2 + r\<rparr>)"
    using assms(1) by (intro same_draws_shift) (simp add: world_rel_def)
  then have "same_draws v1 v2" using assms(2,3) by (simp add: same_draws_def advanced_def)
  moreover have "same_allocs v1 v2"
    using same_allocs_shift[of w1 w2 d] assms by (simp add: same_allocs_def advanced_def world_rel_def)
  ultimately show ?thesis by (simp add: world_rel_def)
qed

lemma world_rel_alloc: "world_rel w1 w2 \<Longrightarrow> alloc_ok w1 (alloc_pos w1) = alloc_ok w2 (alloc_pos w2)"
  using same_allocs_def[of w1 w2] by (simp add: world_rel_def) (metis add.right_neutral)

lemma world_rel_draw: "world_rel w1 w2 \<Longrightarrow> fst (rand w1) = fst (rand w2)"
  by (simp add: world_rel_def same_draws_first)

lemma queue_rel_count: "queue_rel w1 q1 w2 q2 \<Longrightarrow> customer_count q1 = customer_count q2"
  by (auto simp: queue_rel_def queue_inv_def dest: map_eq_imp_length_eq)

lemma enqueue_no_memory:
  "\<not> alloc_ok w (alloc_pos w) \<Longrightarrow> enqueue q v w = Inl Exit_failure"
  by (simp add: enqueue_def malloc_Customer_def alloc_request_def)

lemma enqueue_overflow:
  assumes q: "queue_inv w q as" and ok: "alloc_ok w (alloc_pos w)"
    and c: "customer_count q = INT_MAX"
  shows "enqueue q v w = Inl Signed_overflow"
proof (cases as rule: rev_cases)
  case Nil
  then have "customer_count q = 0" using q by (simp add: queue_inv_def)
  with c show ?thesis by (simp add: INT_MAX_def)
next
  case (snoc bs r)
  then have ne: "\<not> is_empty q" using queue_inv_empty_iff[OF q] by simp
  have rq: "rear q = Some r" "r < next_addr w" using q snoc by (auto simp: queue_inv_def)
  have "chain (heap w) (front q) (bs @ [r])" using q snoc by (simp add: queue_inv_def)
  from chain_last_next[OF this] obtain cu where "heap w r = Some cu" by blast
  then show ?thesis
    using ok c ne rq
    by (simp add: enqueue_def malloc_Customer_def alloc_request_def c_int_def Let_def)
qed

lemma enqueue_rel:
  assumes q: "queue_rel w1 q1 w2 q2" and w: "world_rel w1 w2"
  shows "(\<exists>e. enqueue q1 v w1 = Inl e \<and> enqueue q2 v w2 = Inl e) \<or>
         (\<exists>q1' v1 q2' v2. enqueue q1 v w1 = Inr (q1', v1) \<and> enqueue q2 v w2 = Inr (q2', v2) \<and>
            queue_rel v1 q1' v2 q2' \<and> world_rel v1 v2)"
proof -
  from q obtain as1 as2 where i1: "queue_inv w1 q1 as1" and i2: "queue_inv w2 q2 as2"
    and ar: "map (arrival_of w1) as1 = map (arrival_of w2) as2"
    by (auto simp: queue_rel_def)
  have cc: "customer_count q1 = customer_count q2" using q by (rule queue_rel_count)
  have le: "customer_count q1 \<le> INT_MAX" using i1 by (simp add: queue_inv_def)
  consider (nomem) "\<not> alloc_ok w1 (alloc_pos w1)"
    | (full) "alloc_ok w1 (alloc_pos w1)" "customer_count q1 = INT_MAX"
    | (ok) "alloc_ok w1 (alloc_pos w1)" "customer_count q1 < INT_MAX"
    using le by fastforce
  then show ?thesis
  proof cases
    case nomem
    then have "\<not> alloc_ok w2 (alloc_pos w2)" using world_rel_alloc[OF w] by simp
    with nomem show ?thesis by (simp add: enqueue_no_memory)
  next
    case full
    then have "alloc_ok w2 (alloc_pos w2)" "customer_count q2 = INT_MAX"
      using world_rel_alloc[OF w] cc by simp_all
    with full show ?thesis using enqueue_overflow[OF i1] enqueue_overflow[OF i2] by simp
  next
    case ok
    then have ok2: "alloc_ok w2 (alloc_pos w2)" "customer_count q2 < INT_MAX"
      using world_rel_alloc[OF w] cc by simp_all
    from enqueue_succeeds[OF i1 ok] obtain q1' v1 where e1: "enqueue q1 v w1 = Inr (q1', v1)"
      by blast
    from enqueue_succeeds[OF i2 ok2] obtain q2' v2 where e2: "enqueue q2 v w2 = Inr (q2', v2)"
      by blast
    from enqueue_inv[OF i1 e1] have n1: "queue_inv v1 q1' (as1 @ [next_addr w1])"
      "arrival_of v1 (next_addr w1) = v" "\<forall>a\<in>set as1. arrival_of v1 a = arrival_of w1 a"
      by simp_all
    from enqueue_inv[OF i2 e2] have n2: "queue_inv v2 q2' (as2 @ [next_addr w2])"
      "arrival_of v2 (next_addr w2) = v" "\<forall>a\<in>set as2. arrival_of v2 a = arrival_of w2 a"
      by simp_all
    have "map (arrival_of v1) as1 = map (arrival_of w1) as1"
      "map (arrival_of v2) as2 = map (arrival_of w2) as2"
      using n1(3) n2(3) by simp_all
    then have "map (arrival_of v1) (as1 @ [next_addr w1]) =
               map (arrival_of v2) (as2 @ [next_addr w2])"
      using ar n1(2) n2(2) by simp
    then have qr: "queue_rel v1 q1' v2 q2'" using n1(1) n2(1) unfolding queue_rel_def by blast
    have "advanced w1 v1 0 1" "advanced w2 v2 0 1"
      using enqueue_frame[OF e1] enqueue_frame[OF e2] by (simp_all add: advanced_def)
    from world_rel_advanced[OF w this] qr e1 e2 show ?thesis by blast
  qed
qed

lemma enqueue_arrivals_rel:
  "queue_rel w1 q1 w2 q2 \<Longrightarrow> world_rel w1 w2 \<Longrightarrow>
   (\<exists>e. enqueue_arrivals n q1 m w1 = Inl e \<and> enqueue_arrivals n q2 m w2 = Inl e) \<or>
   (\<exists>q1' v1 q2' v2. enqueue_arrivals n q1 m w1 = Inr (q1', v1) \<and>
      enqueue_arrivals n q2 m w2 = Inr (q2', v2) \<and> queue_rel v1 q1' v2 q2' \<and> world_rel v1 v2)"
proof (induction n arbitrary: q1 w1 q2 w2)
  case 0
  then show ?case by simp
next
  case (Suc n)
  from enqueue_rel[OF Suc.prems, of m] consider
    (err) e where "enqueue q1 m w1 = Inl e" "enqueue q2 m w2 = Inl e"
    | (ok) q1' v1 q2' v2 where "enqueue q1 m w1 = Inr (q1', v1)" "enqueue q2 m w2 = Inr (q2', v2)"
        "queue_rel v1 q1' v2 q2'" "world_rel v1 v2"
    by blast
  then show ?case
  proof cases
    case err
    then show ?thesis by simp
  next
    case ok
    from Suc.IH[OF ok(3,4)] show ?thesis using ok(1,2) by simp
  qed
qed

lemma add_wait_time_rel:
  assumes w: "world_rel w1 w2"
  shows "(\<exists>e. add_wait_time st wt w1 = Inl e \<and> add_wait_time st wt w2 = Inl e) \<or>
         (\<exists>st' v1 v2 d. add_wait_time st wt w1 = Inr (st', v1) \<and>
            add_wait_time st wt w2 = Inr (st', v2) \<and> advanced w1 v1 0 d \<and> advanced w2 v2 0 d \<and>
            heap v1 = heap w1 \<and> next_addr v1 = next_addr w1 \<and>
            heap v2 = heap w2 \<and> next_addr v2 = next_addr w2)"
proof (cases "count st = capacity st")
  case False
  show ?thesis
  proof (cases "store_wait_time st wt w1")
    case (Inl e)
    then have "store_wait_time st wt w2 = Inl e"
      by (auto simp: store_wait_time_def bind_err_def split: if_splits sum.splits)
    with Inl False show ?thesis by (simp add: add_wait_time_def)
  next
    case (Inr r)
    then have "r = (fst r, w1)" "store_wait_time st wt w2 = Inr (fst r, w2)"
      by (auto simp: store_wait_time_def bind_err_def split: if_splits sum.splits)
    with Inr False have "add_wait_time st wt w1 = Inr (fst r, w1)"
      "add_wait_time st wt w2 = Inr (fst r, w2)"
      by (simp_all add: add_wait_time_def)
    moreover have "advanced w1 w1 0 0" "advanced w2 w2 0 0" by (simp_all add: advanced_def)
    ultimately show ?thesis by blast
  qed
next
  case True
  show ?thesis
  proof (cases "c_int (capacity st * 2)")
    case (Inl e)
    with True show ?thesis by (simp add: add_wait_time_def)
  next
    case (Inr nc)
    let ?v1 = "w1\<lparr>alloc_pos := alloc_pos w1 + 1\<rparr>"
    let ?v2 = "w2\<lparr>alloc_pos := alloc_pos w2 + 1\<rparr>"
    show ?thesis
    proof (cases "alloc_ok w1 (alloc_pos w1)")
      case no: False
      then have no2: "\<not> alloc_ok w2 (alloc_pos w2)" using world_rel_alloc[OF w] by simp
      let ?msg = "''Failed to re-allocate memory for wait time array''"
      have "add_wait_time st wt w1 = Inr (st, perror ?msg ?v1)"
        "add_wait_time st wt w2 = Inr (st, perror ?msg ?v2)"
        using True Inr no no2 by (simp_all add: add_wait_time_def alloc_request_def)
      moreover have "advanced w1 (perror ?msg ?v1) 0 1" "advanced w2 (perror ?msg ?v2) 0 1"
        by (simp_all add: advanced_def perror_def)
      moreover have "heap (perror ?msg ?v1) = heap w1" "next_addr (perror ?msg ?v1) = next_addr w1"
        "heap (perror ?msg ?v2) = heap w2" "next_addr (perror ?msg ?v2) = next_addr w2"
        by (simp_all add: perror_def)
      ultimately show ?thesis by blast
    next
      case yes: True
      then have yes2: "alloc_ok w2 (alloc_pos w2)" using world_rel_alloc[OF w] by simp
      let ?s1 = "st\<lparr>wait_times := realloc_cells (wait_times st) nc, capacity := nc\<rparr>"
      have a1: "add_wait_time st wt w1 = store_wait_time ?s1 wt ?v1"
        and a2: "add_wait_time st wt w2 = store_wait_time ?s1 wt ?v2"
        using True Inr yes yes2 by (simp_all add: add_wait_time_def alloc_request_def)
      show ?thesis
      proof (cases "store_wait_time ?s1 wt ?v1")
        case (Inl e)
        then have "store_wait_time ?s1 wt ?v2 = Inl e"
          by (auto simp: store_wait_time_def bind_err_def split: if_splits sum.splits)
        with Inl a1 a2 show ?thesis by simp
      next
        case r: (Inr r)
        then have "r = (fst r, ?v1)" "store_wait_time ?s1 wt ?v2 = Inr (fst r, ?v2)"
          by (auto simp: store_wait_time_def bind_err_def split: if_splits sum.splits)
        with r a1 a2 have "add_wait_time st wt w1 = Inr (fst r, ?v1)"
          "add_wait_time st wt w2 = Inr (fst r, ?v2)" by simp_all
        moreover have "advanced w1 ?v1 0 1" "advanced w2 ?v2 0 1" by (simp_all add: advanced_def)
        moreover have "heap ?v1 = heap w1" "next_addr ?v1 = next_addr w1"
          "heap ?v2 = heap w2" "next_addr ?v2 = next_addr w2" by simp_all
        ultimately show ?thesis by blast
      qed
    qed
  qed
qed


lemma assign_teller_front_unfold:
  assumes q: "queue_inv w q (a # bs)" and free: "is_busy t = 0"
  shows "\<exists>q'. queue_inv (free_Customer a w) q' bs \<and>
           (\<forall>b\<in>set bs. arrival_of (free_Customer a w) b = arrival_of w b) \<and>
           assign_teller m t q st w =
             bind_err (c_int (m - arrival_of w a))
               (\<lambda>wt. bind_err (add_wait_time st wt w)
                  (\<lambda>r. Inr (t\<lparr>is_busy := 1,
                               remaining_service_time := fst (get_service_time (snd r))\<rparr>,
                             q', fst r, free_Customer a (snd (get_service_time (snd r))))))"
proof -
  from dequeue_inv[OF q] obtain q' c where
    d: "dequeue q w = Inr (Some a, q')" and q': "queue_inv (free_Customer a w) q' bs"
    and ar: "\<forall>b\<in>set bs. arrival_of (free_Customer a w) b = arrival_of w b"
    and c: "heap w a = Some c"
    by auto
  have ne: "\<not> is_empty q" using queue_inv_empty_iff[OF q] by simp
  have v: "arrival_of w a = arrival_minute c" using c by (simp add: arrival_of_def)
  have "assign_teller m t q st w =
             bind_err (c_int (m - arrival_of w a))
               (\<lambda>wt. bind_err (add_wait_time st wt w)
                  (\<lambda>r. Inr (t\<lparr>is_busy := 1,
                               remaining_service_time := fst (get_service_time (snd r))\<rparr>,
                             q', fst r, free_Customer a (snd (get_service_time (snd r))))))"
    using free ne d c v by (simp add: assign_teller_def case_prod_unfold)
  with q' ar show ?thesis by blast
qed

lemma assign_teller_rel:
  assumes q: "queue_rel w1 q1 w2 q2" and w: "world_rel w1 w2"
  shows "(\<exists>e. assign_teller m t q1 st w1 = Inl e \<and> assign_teller m t q2 st w2 = Inl e) \<or>
         (\<exists>t' q1' q2' st' v1 v2.
            assign_teller m t q1 st w1 = Inr (t', q1', st', v1) \<and>
            assign_teller m t q2 st w2 = Inr (t', q2', st', v2) \<and>
            queue_rel v1 q1' v2 q2' \<and> world_rel v1 v2)"
proof -
  from q obtain as1 as2 where i1: "queue_inv w1 q1 as1" and i2: "queue_inv w2 q2 as2"
    and ar: "map (arrival_of w1) as1 = map (arrival_of w2) as2"
    by (auto simp: queue_rel_def)
  have len: "length as1 = length as2" using ar by (rule map_eq_imp_length_eq)
  show ?thesis
  proof (cases "is_busy t = 0 \<and> as1 \<noteq> []")
    case False
    then have "is_busy t \<noteq> 0 \<or> is_empty q1" "is_busy t \<noteq> 0 \<or> is_empty q2"
      using queue_inv_empty_iff[OF i1] queue_inv_empty_iff[OF i2] len by auto
    then have "assign_teller m t q1 st w1 = Inr (t, q1, st, w1)"
      "assign_teller m t q2 st w2 = Inr (t, q2, st, w2)"
      by (simp_all add: assign_teller_idle)
    with q w show ?thesis by blast
  next
    case True
    then obtain a1 bs1 where as1: "as1 = a1 # bs1" by (cases as1) auto
    with len obtain a2 bs2 where as2: "as2 = a2 # bs2" by (cases as2) auto
    from ar as1 as2 have v: "arrival_of w1 a1 = arrival_of w2 a2"
      and tl: "map (arrival_of w1) bs1 = map (arrival_of w2) bs2" by simp_all
    from True have free: "is_busy t = 0" by simp
    from assign_teller_front_unfold[OF i1[unfolded as1] free, of m st] obtain q1' where
      q1': "queue_inv (free_Customer a1 w1) q1' bs1"
      and ar1: "\<forall>b\<in>set bs1. arrival_of (free_Customer a1 w1) b = arrival_of w1 b"
      and u1: "assign_teller m t q1 st w1 =
             bind_err (c_int (m - arrival_of w1 a1))
               (\<lambda>wt. bind_err (add_wait_time st wt w1)
                  (\<lambda>r. Inr (t\<lparr>is_busy := 1,
                               remaining_service_time := fst (get_service_time (snd r))\<rparr>,
                             q1', fst r, free_Customer a1 (snd (get_service_time (snd r))))))"
      by blast
    from assign_teller_front_unfold[OF i2[unfolded as2] free, of m st] obtain q2' where
      q2': "queue_inv (free_Customer a2 w2) q2' bs2"
      and ar2: "\<forall>b\<in>set bs2. arrival_of (free_Customer a2 w2) b = arrival_of w2 b"
      and u2: "assign_teller m t q2 st w2 =
             bind_err (c_int (m - arrival_of w2 a2))
               (\<lambda>wt. bind_err (add_wait_time st wt w2)
                  (\<lambda>r. Inr (t\<lparr>is_busy := 1,
                               remaining_service_time := fst (get_service_time (snd r))\<rparr>,
                             q2', fst r, free_Customer a2 (snd (get_service_time (snd r))))))"
      by blast
    show ?thesis
    proof (cases "c_int (m - arrival_of w1 a1)")
      case (Inl e)
      then show ?thesis using u1 u2 v by simp
    next
      case (Inr wt)
      from add_wait_time_rel[OF w, of st wt] consider
        (err) e where "add_wait_time st wt w1 = Inl e" "add_wait_time st wt w2 = Inl e"
        | (ok) st' x1 x2 d where "add_wait_time st wt w1 = Inr (st', x1)"
            "add_wait_time st wt w2 = Inr (st', x2)" "advanced w1 x1 0 d" "advanced w2 x2 0 d"
            "heap x1 = heap w1" "next_addr x1 = next_addr w1"
            "heap x2 = heap w2" "next_addr x2 = next_addr w2"
        by blast
      then show ?thesis
      proof cases
        case err
        then show ?thesis using u1 u2 v Inr by simp
      next
        case ok
        let ?v1 = "free_Customer a1 (snd (get_service_time x1))"
        let ?v2 = "free_Customer a2 (snd (get_service_time x2))"
        let ?t1 = "t\<lparr>is_busy := 1, remaining_service_time := fst (get_service_time x1)\<rparr>"
        have xr: "world_rel x1 x2" using w ok(3,4) by (rule world_rel_advanced)
        have sv: "fst (get_service_time x2) = fst (get_service_time x1)"
          using world_rel_draw[OF xr] by (simp add: get_service_time_def split_beta)
        have r1: "assign_teller m t q1 st w1 = Inr (?t1, q1', st', ?v1)"
          using u1 Inr ok(1) by simp
        have r2: "assign_teller m t q2 st w2 = Inr (?t1, q2', st', ?v2)"
          using u2 Inr ok(2) v sv by simp
        have "advanced x1 ?v1 1 0" "advanced x2 ?v2 1 0"
          by (simp_all add: advanced_def free_Customer_def get_service_time_frame)
        with xr have vr: "world_rel ?v1 ?v2" by (rule world_rel_advanced)
        have h1: "heap ?v1 = heap (free_Customer a1 w1)"
          "next_addr ?v1 = next_addr (free_Customer a1 w1)"
          using ok(5,6) by (simp_all add: free_Customer_def get_service_time_frame)
        have h2: "heap ?v2 = heap (free_Customer a2 w2)"
          "next_addr ?v2 = next_addr (free_Customer a2 w2)"
          using ok(7,8) by (simp_all add: free_Customer_def get_service_time_frame)
        have qa: "queue_inv ?v1 q1' bs1" using q1' queue_inv_frame[OF h1] by simp
        have qb: "queue_inv ?v2 q2' bs2" using q2' queue_inv_frame[OF h2] by simp
        have "map (arrival_of ?v1) bs1 = map (arrival_of w1) bs1"
          using ar1 arrival_of_frame[OF h1(1)] by simp
        moreover have "map (arrival_of ?v2) bs2 = map (arrival_of w2) bs2"
          using ar2 arrival_of_frame[OF h2(1)] by simp
        ultimately have "map (arrival_of ?v1) bs1 = map (arrival_of ?v2) bs2" using tl by simp
        with qa qb have "queue_rel ?v1 q1' ?v2 q2'" unfolding queue_rel_def by blast
        with r1 r2 vr show ?thesis by blast
      qed
    qed
  qed
qed

lemma assign_tellers_rel:
  "queue_rel w1 q1 w2 q2 \<Longrightarrow> world_rel w1 w2 \<Longrightarrow>
   (\<exists>e. assign_tellers m ts q1 st w1 = Inl e \<and> assign_tellers m ts q2 st w2 = Inl e) \<or>
   (\<exists>ts' q1' q2' st' v1 v2.
      assign_tellers m ts q1 st w1 = Inr (ts', q1', st', v1) \<and>
      assign_tellers m ts q2 st w2 = Inr (ts', q2', st', v2) \<and>
      queue_rel v1 q1' v2 q2' \<and> world_rel v1 v2)"
proof (induction ts arbitrary: q1 w1 q2 w2 st)
  case Nil
  then show ?case by simp
next
  case (Cons t ts)
  from assign_teller_rel[OF Cons.prems, of m t st] consider
    (err) e where "assign_teller m t q1 st w1 = Inl e" "assign_teller m t q2 st w2 = Inl e"
    | (ok) t' q1' q2' st' v1 v2 where
        "assign_teller m t q1 st w1 = Inr (t', q1', st', v1)"
        "assign_teller m t q2 st w2 = Inr (t', q2', st', v2)"
        "queue_rel v1 q1' v2 q2'" "world_rel v1 v2"
    by blast
  then show ?case
  proof cases
    case err
    then show ?thesis by simp
  next
    case ok
    from Cons.IH[OF ok(3,4), of st'] consider
      (err2) e where "assign_tellers m ts q1' st' v1 = Inl e" "assign_tellers m ts q2' st' v2 = Inl e"
      | (ok2) ts' p1 p2 st2 x1 x2 where
          "assign_tellers m ts q1' st' v1 = Inr (ts', p1, st2, x1)"
          "assign_tellers m ts q2' st' v2 = Inr (ts', p2, st2, x2)"
          "queue_rel x1 p1 x2 p2" "world_rel x1 x2"
      by blast
    then show ?thesis
    proof cases
      case err2
      then show ?thesis using ok(1,2) by simp
    next
      case ok2
      have "assign_tellers m (t # ts) q1 st w1 = Inr (t' # ts', p1, st2, x1)"
        "assign_tellers m (t # ts) q2 st w2 = Inr (t' # ts', p2, st2, x2)"
        using ok(1,2) ok2(1,2) by simp_all
      with ok2(3,4) show ?thesis by blast
    qed
  qed
qed


lemma queue_walk_chain:
  "chain h p as \<Longrightarrow>
   queue_walk h p (length as) =
     map (\<lambda>a. case h a of None \<Rightarrow> 0 | Some c \<Rightarrow> arrival_minute c) as"
  by (induction as arbitrary: p) (auto split: option.splits)

lemma queue_contents_inv: "queue_inv w q as \<Longrightarrow> queue_contents w q = map (arrival_of w) as"
  using queue_walk_chain[of "heap w" "front q" as]
  by (simp add: queue_contents_def queue_inv_def arrival_of_def)

lemma queue_rel_contents: "queue_rel w1 q1 w2 q2 \<Longrightarrow> queue_contents w1 q1 = queue_contents w2 q2"
  by (auto simp: queue_rel_def queue_contents_inv)

lemma queue_rel_frame:
  assumes "queue_rel w1 q1 w2 q2" "heap v1 = heap w1" "next_addr v1 = next_addr w1"
    "heap v2 = heap w2" "next_addr v2 = next_addr w2"
  shows "queue_rel v1 q1 v2 q2"
  using assms queue_inv_frame[OF assms(2,3)] queue_inv_frame[OF assms(4,5)]
    arrival_of_frame[OF assms(2)] arrival_of_frame[OF assms(4)]
  by (simp add: queue_rel_def)

lemma sim_minute_rel:
  assumes r: "sim_rel s1 w1 s2 w2"
  shows "(\<exists>e. sim_minute fp lambda m s1 w1 = Inl e \<and> sim_minute fp lambda m s2 w2 = Inl e) \<or>
         (\<exists>s1' v1 s2' v2. sim_minute fp lambda m s1 w1 = Inr (s1', v1) \<and>
            sim_minute fp lambda m s2 w2 = Inr (s2', v2) \<and> sim_rel s1' v1 s2' v2)"
proof -
  from r have eq: "tellers s2 = tellers s1" "storage s2 = storage s1"
    "total_arrivals s2 = total_arrivals s1"
    and q: "queue_rel w1 (bank_queue s1) w2 (bank_queue s2)" and w: "world_rel w1 w2"
    by (simp_all add: sim_rel_def)
  show ?thesis
  proof (cases "tick_tellers (tellers s1)")
    case (Inl e)
    then show ?thesis by (simp add: sim_minute_def eq)
  next
    case (Inr ts1)
    have sd: "same_draws w1 w2" using w by (simp add: world_rel_def)
    from poisson_loop_rel[OF sd, of fp "fp_exp fp (fp_neg fp lambda)" "fp_one fp" 0] consider
      (perr) e where "get_poisson_random fp lambda w1 = Inl e"
        "get_poisson_random fp lambda w2 = Inl e"
      | (pok) n d where
        "get_poisson_random fp lambda w1 = Inr (n, w1\<lparr>rand_pos := rand_pos w1 + d\<rparr>)"
        "get_poisson_random fp lambda w2 = Inr (n, w2\<lparr>rand_pos := rand_pos w2 + d\<rparr>)"
      by (auto simp: get_poisson_random_def Let_def)
    then show ?thesis
    proof cases
      case perr
      then show ?thesis by (simp add: sim_minute_def eq Inr)
    next
      case pok
      let ?x1 = "w1\<lparr>rand_pos := rand_pos w1 + d\<rparr>"
      let ?x2 = "w2\<lparr>rand_pos := rand_pos w2 + d\<rparr>"
      have xr: "world_rel ?x1 ?x2" using w by (rule world_rel_rand_pos)
      have xq: "queue_rel ?x1 (bank_queue s1) ?x2 (bank_queue s2)"
        using q by (rule queue_rel_frame) simp_all
      show ?thesis
      proof (cases "c_int (total_arrivals s1 + n)")
        case (Inl e)
        then show ?thesis using pok by (simp add: sim_minute_def eq Inr)
      next
        case tot: (Inr total)
        from enqueue_arrivals_rel[OF xq xr, of "nat n" m] consider
          (eerr) e where "enqueue_arrivals (nat n) (bank_queue s1) m ?x1 = Inl e"
            "enqueue_arrivals (nat n) (bank_queue s2) m ?x2 = Inl e"
          | (eok) q1' y1 q2' y2 where
            "enqueue_arrivals (nat n) (bank_queue s1) m ?x1 = Inr (q1', y1)"
            "enqueue_arrivals (nat n) (bank_queue s2) m ?x2 = Inr (q2', y2)"
            "queue_rel y1 q1' y2 q2'" "world_rel y1 y2"
          by blast
        then show ?thesis
        proof cases
          case eerr
          then show ?thesis using pok tot by (simp add: sim_minute_def eq Inr)
        next
          case eok
          from assign_tellers_rel[OF eok(3,4), of m ts1 "storage s1"] consider
            (aerr) e where "assign_tellers m ts1 q1' (storage s1) y1 = Inl e"
              "assign_tellers m ts1 q2' (storage s1) y2 = Inl e"
            | (aok) ts' p1 p2 st' v1 v2 where
              "assign_tellers m ts1 q1' (storage s1) y1 = Inr (ts', p1, st', v1)"
              "assign_tellers m ts1 q2' (storage s1) y2 = Inr (ts', p2, st', v2)"
              "queue_rel v1 p1 v2 p2" "world_rel v1 v2"
            by blast
          then show ?thesis
          proof cases
            case aerr
            then show ?thesis using pok tot eok(1,2) by (simp add: sim_minute_def eq Inr)
          next
            case aok
            let ?s1 = "\<lparr>bank_queue = p1, storage = st', tellers = ts', total_arrivals = total\<rparr>"
            let ?s2 = "\<lparr>bank_queue = p2, storage = st', tellers = ts', total_arrivals = total\<rparr>"
            have "sim_minute fp lambda m s1 w1 = Inr (?s1, v1)"
              "sim_minute fp lambda m s2 w2 = Inr (?s2, v2)"
              using pok tot eok(1,2) aok(1,2) by (simp_all add: sim_minute_def eq Inr)
            moreover have "sim_rel ?s1 v1 ?s2 v2" using aok(3,4) by (simp add: sim_rel_def)
            ultimately show ?thesis by blast
          qed
        qed
      qed
    qed
  qed
qed

lemma sim_loop_rel:
  "sim_rel s1 w1 s2 w2 \<Longrightarrow>
   (\<exists>e. sim_loop fp lambda m s1 w1 = Inl e \<and> sim_loop fp lambda m s2 w2 = Inl e) \<or>
   (\<exists>s1' v1 s2' v2. sim_loop fp lambda m s1 w1 = Inr (s1', v1) \<and>
      sim_loop fp lambda m s2 w2 = Inr (s2', v2) \<and> sim_rel s1' v1 s2' v2)"
proof (induction n \<equiv> "nat (SIMULATION_MINUTES - m)" arbitrary: m s1 w1 s2 w2)
  case 0
  then have "sim_loop fp lambda m s1 w1 = Inr (s1, w1)" "sim_loop fp lambda m s2 w2 = Inr (s2, w2)"
    by (subst sim_loop.simps, simp)+
  with 0 show ?case by blast
next
  case (Suc n)
  then have lt: "m < SIMULATION_MINUTES" by simp
  have n: "n = nat (SIMULATION_MINUTES - (m + 1))" using Suc.hyps(2) by simp
  have u: "sim_loop fp lambda m s1 w1 =
      bind_err (sim_minute fp lambda m s1 w1) (\<lambda>(s, w). sim_loop fp lambda (m + 1) s w)"
    "sim_loop fp lambda m s2 w2 =
      bind_err (sim_minute fp lambda m s2 w2) (\<lambda>(s, w). sim_loop fp lambda (m + 1) s w)"
    using lt by (subst sim_loop.simps, simp)+
  from sim_minute_rel[OF Suc.prems, of fp lambda m] consider
    (err) e where "sim_minute fp lambda m s1 w1 = Inl e" "sim_minute fp lambda m s2 w2 = Inl e"
    | (ok) s1' v1 s2' v2 where "sim_minute fp lambda m s1 w1 = Inr (s1', v1)"
        "sim_minute fp lambda m s2 w2 = Inr (s2', v2)" "sim_rel s1' v1 s2' v2"
    by blast
  then show ?case
  proof cases
    case err
    then show ?thesis using u by simp
  next
    case ok
    from Suc.hyps(1)[OF n ok(3)] show ?thesis using u ok(1,2) by simp
  qed
qed

lemma run_outcome_rel:
  assumes g: "rand_gen w1 (to_unsigned (clock w1)) = rand_gen w2 (to_unsigned (clock w2))"
    and al: "\<forall>i. alloc_ok w1 (alloc_pos w1 + i) = alloc_ok w2 (alloc_pos w2 + i)"
  shows "run_outcome fp lambda num_tellers w1 = run_outcome fp lambda num_tellers w2"
proof -
  let ?s = "initial_sim num_tellers"
  define g1 where "g1 = (alloc_ok w1 (alloc_pos w1) \<and> alloc_ok w1 (alloc_pos w1 + 1) \<and>
         alloc_ok w1 (alloc_pos w1 + 2) \<and> alloc_ok w1 (alloc_pos w1 + 3))"
  define g2 where "g2 = (alloc_ok w2 (alloc_pos w2) \<and> alloc_ok w2 (alloc_pos w2 + 1) \<and>
         alloc_ok w2 (alloc_pos w2 + 2) \<and> alloc_ok w2 (alloc_pos w2 + 3))"
  have a0: "alloc_ok w1 (alloc_pos w1) = alloc_ok w2 (alloc_pos w2)"
    using al[rule_format, of 0] by simp
  have go: "g2 = g1"
    unfolding g1_def g2_def
    using a0 al[rule_format, of 1] al[rule_format, of 2] al[rule_format, of 3]
    by (simp only:)
  have r1: "run_simulation fp lambda num_tellers w1 =
      (if g1 then sim_loop fp lambda 0 ?s (started w1) else Inl Exit_failure)"
    unfolding g1_def by (rule run_simulation_unfold)
  have r2: "run_simulation fp lambda num_tellers w2 =
      (if g1 then sim_loop fp lambda 0 ?s (started w2) else Inl Exit_failure)"
    unfolding go[symmetric] g2_def by (rule run_simulation_unfold)
  show ?thesis
  proof (cases g1)
    case False
    then show ?thesis by (simp add: run_outcome_def r1 r2)
  next
    case True
    have "queue_inv (started w1) (bank_queue ?s) []" "queue_inv (started w2) (bank_queue ?s) []"
      by (simp_all add: queue_inv_def initial_sim_def INT_MAX_def)
    then have q: "queue_rel (started w1) (bank_queue ?s) (started w2) (bank_queue ?s)"
      unfolding queue_rel_def by (intro exI[of _ "[]"]) simp
    have "same_draws (started w1) (started w2)" using g by (simp add: same_draws_def started_def)
    moreover have "same_allocs (started w1) (started w2)"
      using al by (simp add: same_allocs_def started_def add.assoc)
    ultimately have "sim_rel ?s (started w1) ?s (started w2)"
      using q by (simp add: sim_rel_def world_rel_def)
    from sim_loop_rel[OF this, of fp lambda 0] consider
      (err) e where "sim_loop fp lambda 0 ?s (started w1) = Inl e"
        "sim_loop fp lambda 0 ?s (started w2) = Inl e"
      | (ok) s1' v1 s2' v2 where "sim_loop fp lambda 0 ?s (started w1) = Inr (s1', v1)"
          "sim_loop fp lambda 0 ?s (started w2) = Inr (s2', v2)" "sim_rel s1' v1 s2' v2"
      by blast
    then show ?thesis
    proof cases
      case err
      then show ?thesis using True by (simp add: run_outcome_def r1 r2)
    next
      case ok
      from ok(3) have "total_arrivals s1' = total_arrivals s2'" "storage s1' = storage s2'"
        "queue_contents v1 (bank_queue s1') = queue_contents v2 (bank_queue s2')"
        by (simp_all add: sim_rel_def queue_rel_contents)
      then show ?thesis
        using ok(1,2) True by (simp add: run_outcome_def r1 r2)
    qed
  qed
qed


lemma gen_seeded_zero_from: "zero_from gen_seeded seed p \<longleftrightarrow> seed \<le> p"
proof
  assume a: "zero_from gen_seeded seed p"
  show "seed \<le> p"
  proof (rule ccontr)
    assume "\<not> seed \<le> p"
    then have "gen_seeded seed p \<noteq> 0" by (simp add: gen_seeded_def)
    with a show False by (simp add: zero_from_def)
  qed
next
  assume "seed \<le> p"
  then show "zero_from gen_seeded seed p" by (simp add: gen_seeded_def zero_from_def)
qed

lemma started_reseeds: "started (w\<lparr>rand_seed := a, rand_pos := b\<rparr>) = started w"
  by (simp add: started_def)

lemma assign_tellers_append:
  "assign_tellers m (ts @ us) q st w =
     bind_err (assign_tellers m ts q st w)
       (\<lambda>(ts1, q1, st1, w1).
          bind_err (assign_tellers m us q1 st1 w1)
            (\<lambda>(us1, q2, st2, w2). Inr (ts1 @ us1, q2, st2, w2)))"
proof (induction ts arbitrary: q st w)
  case Nil
  show ?case by (cases "assign_tellers m us q st w") auto
next
  case (Cons t ts)
  show ?case
  proof (cases "assign_teller m t q st w")
    case (Inl e)
    then show ?thesis by simp
  next
    case (Inr r)
    obtain t1 q1 st1 w1 where r: "r = (t1, q1, st1, w1)" by (cases r) auto
    show ?thesis
    proof (cases "assign_tellers m ts q1 st1 w1")
      case (Inl e)
      then show ?thesis using Inr r Cons.IH[of q1 st1 w1] by simp
    next
      case (Inr r2)
      obtain ts2 q2 st2 w2 where "r2 = (ts2, q2, st2, w2)" by (cases r2) auto
      then show ?thesis
        using Inr \<open>assign_teller m t q st w = Inr r\<close> r Cons.IH[of q1 st1 w1]
        by (cases "assign_tellers m us q2 st2 w2") auto
    qed
  qed
qed

lemma get_poisson_random_draws:
  assumes "get_poisson_random fp lambda w = Inr (n, w1)"
  shows "0 \<le> n \<and> w1 = w\<lparr>rand_pos := rand_pos w + nat n + 1\<rparr>"
proof -
  from assms have "poisson_loop fp (fp_exp fp (fp_neg fp lambda)) (fp_one fp) 0 w = Inr (n, w1)"
    by (simp add: get_poisson_random_def Let_def)
  from poisson_loop_sound[OF this] obtain j where "n = 0 + int j"
    "w1 = w\<lparr>rand_pos := rand_pos w + j + 1\<rparr>" by blast
  then show ?thesis by simp
qed

lemma get_service_time_draw:
  "get_service_time w =
     (int (rand_gen w (rand_seed w) (rand_pos w)) mod 2 + 2, w\<lparr>rand_pos := rand_pos w + 1\<rparr>)"
  by (simp add: get_service_time_def rand_def MIN_SERVICE_TIME_def MAX_SERVICE_TIME_def)

lemma run_simulation_seeds_once:
  assumes "run_simulation fp lambda num_tellers w = Inr (s, w')"
  shows "srand_log w' = srand_log w @ [to_unsigned (clock w)] \<and>
         rand_seed w' = to_unsigned (clock w) \<and> rand_gen w' = rand_gen w"
proof -
  from assms have "env_inv (started w) w'" by (rule run_simulation_env)
  then show ?thesis by (simp add: env_inv_def started_def)
qed

text \<open>
  Claim C10, as amended. A run calls \<^verbatim>\<open>srand\<close> exactly once, with the clock value converted
  to \<^verbatim>\<open>unsigned int\<close>, and the generator is still seeded with that value at the end. All
  draws come from this one generator, in sequence: \<^verbatim>\<open>get_poisson_random\<close> returning \<open>n\<close> has
  made \<open>n + 1\<close> draws and \<^verbatim>\<open>get_service_time\<close> makes one. Two runs with the same \<open>lambda\<close> and
  the same number of tellers whose generators give the same sequence once seeded from
  their clocks, and whose allocators give the same answers, end with the same outcome: the
  same error, or the same number of arrivals, the same recorded wait times and the same
  queue contents; addresses, output and the state of the generator before the call play
  no part, and overwriting that state changes nothing of the result. The tellers are
  assigned in ascending index order: assigning over \<open>ts @ us\<close> is assigning over \<open>ts\<close> and
  then over \<open>us\<close>, from the state the first left.
\<close>

theorem seeded_once_from_clock:
  "(run_simulation fp lambda num_tellers w = Inr (s, w') \<longrightarrow>
      srand_log w' = srand_log w @ [to_unsigned (clock w)] \<and>
      rand_seed w' = to_unsigned (clock w) \<and> rand_gen w' = rand_gen w) \<and>
   (get_poisson_random fp lambda x = Inr (n, x1) \<longrightarrow>
      0 \<le> n \<and> x1 = x\<lparr>rand_pos := rand_pos x + nat n + 1\<rparr>) \<and>
   get_service_time x =
     (int (rand_gen x (rand_seed x) (rand_pos x)) mod 2 + 2, x\<lparr>rand_pos := rand_pos x + 1\<rparr>) \<and>
   (rand_gen w1 (to_unsigned (clock w1)) = rand_gen w2 (to_unsigned (clock w2)) \<and>
    (\<forall>i. alloc_ok w1 (alloc_pos w1 + i) = alloc_ok w2 (alloc_pos w2 + i)) \<longrightarrow>
      run_outcome fp lambda num_tellers w1 = run_outcome fp lambda num_tellers w2) \<and>
   run_simulation fp lambda num_tellers (w\<lparr>rand_seed := a, rand_pos := b\<rparr>) =
     run_simulation fp lambda num_tellers w \<and>
   assign_tellers m (ts @ us) q st x =
     bind_err (assign_tellers m ts q st x)
       (\<lambda>(ts1, q1, st1, x1).
          bind_err (assign_tellers m us q1 st1 x1)
            (\<lambda>(us1, q2, st2, x2). Inr (ts1 @ us1, q2, st2, x2)))"
proof -
  note A = run_simulation_seeds_once[of fp lambda num_tellers w s w']
  note B = get_poisson_random_draws[of fp lambda x n x1]
  note C = get_service_time_draw[of x]
  note D = run_outcome_rel[of w1 w2 fp lambda num_tellers]
  have E: "run_simulation fp lambda num_tellers (w\<lparr>rand_seed := a, rand_pos := b\<rparr>) =
     run_simulation fp lambda num_tellers w"
    by (simp only: run_simulation_unfold started_reseeds) simp
  note F = assign_tellers_append[of m ts us q st x]
  show ?thesis
    apply (intro conjI)
    subgoal using A by blast
    subgoal using B by blast
    subgoal by (rule C)
    subgoal using D by blast
    subgoal by (rule E)
    subgoal by (rule F)
    done
qed

lemma outcome_A:
  "run_outcome real_platform 1 2 world_A = Inr (3, [Some 0, Some 0, Some 2], [])"
proof -
  obtain w' where "run_simulation real_platform 1 2 world_A = Inr (final_A, w')"
    using run_A' by blast
  then show ?thesis
    by (simp add: run_outcome_def final_A_def recorded_def queue_contents_def)
qed

theorem seeded_once_from_clock_witness:
  "(\<exists>w'. run_simulation real_platform 1 2 world_A = Inr (final_A, w') \<and>
         srand_log w' = [0] \<and> rand_seed w' = 0) \<and>
   get_poisson_random real_platform 1 (started world_A) =
     Inr (3, (started world_A)\<lparr>rand_pos := 4\<rparr>) \<and>
   run_outcome real_platform 1 2 world_A = Inr (3, [Some 0, Some 0, Some 2], []) \<and>
   run_outcome real_platform 1 2 world_A_again = Inr (3, [Some 0, Some 0, Some 2], [])"
proof -
  obtain w' where r: "run_simulation real_platform 1 2 world_A = Inr (final_A, w')"
    using run_A' by blast
  have p: "get_poisson_random real_platform 1 (started world_A) =
     Inr (3, (started world_A)\<lparr>rand_pos := 4\<rparr>)"
    by (simp add: exec_defs world_A_def gen_burst_def)
  note th = seeded_once_from_clock[where fp = real_platform and lambda = 1 and num_tellers = 2
      and w = world_A and s = final_A and w' = w' and x = "started world_A" and n = 3
      and ?x1.0 = "(started world_A)\<lparr>rand_pos := 4\<rparr>"
      and ?w1.0 = world_A_again and ?w2.0 = world_A and a = 7 and b = 9 and m = 0
      and ts = "[]" and us = "[]" and q = empty_queue and st = full_storage]
  from th r have "srand_log w' = srand_log world_A @ [to_unsigned (clock world_A)] \<and>
      rand_seed w' = to_unsigned (clock world_A)" by blast
  then have s: "srand_log w' = [0] \<and> rand_seed w' = 0"
    by (simp add: world_A_def initial_world_def to_unsigned_def UINT_MAX_def)
  have h: "rand_gen world_A_again (to_unsigned (clock world_A_again)) =
           rand_gen world_A (to_unsigned (clock world_A))"
    "\<forall>i. alloc_ok world_A_again (alloc_pos world_A_again + i) =
         alloc_ok world_A (alloc_pos world_A + i)"
    by (simp_all add: world_A_again_def world_A_def initial_world_def to_unsigned_def
          UINT_MAX_def)
  from th h have "run_outcome real_platform 1 2 world_A_again =
      run_outcome real_platform 1 2 world_A" by blast
  with outcome_A r s p show ?thesis by auto
qed

lemma run_midnight:
  "simulation_summary real_platform 1 2 midnight_world = Inr (0, 0, 0)"
  by (simp add: simulation_summary_def midnight_world_def run_simulation_unfold sim_loop_busy
        quiet_loop exec_defs gen_seeded_zero_from gen_seeded_def cong: bind_err_weak_cong)

lemma run_clock_three:
  "simulation_summary real_platform 1 2 (midnight_world\<lparr>clock := 3\<rparr>) = Inr (3, 3, 0)"
  by (simp add: simulation_summary_def midnight_world_def run_simulation_unfold sim_loop_busy
        quiet_loop exec_defs gen_seeded_zero_from gen_seeded_def cong: bind_err_weak_cong)

text \<open>
  No source can be injected: two runs with the same \<open>lambda\<close>, the same tellers and the same
  state of the random source before the call differ as soon as the clock does.
\<close>

theorem same_source_different_clock_counterexample:
  "rand_gen (midnight_world\<lparr>clock := 3\<rparr>) = rand_gen midnight_world \<and>
   rand_seed (midnight_world\<lparr>clock := 3\<rparr>) = rand_seed midnight_world \<and>
   rand_pos (midnight_world\<lparr>clock := 3\<rparr>) = rand_pos midnight_world \<and>
   simulation_summary real_platform 1 2 midnight_world = Inr (0, 0, 0) \<and>
   simulation_summary real_platform 1 2 (midnight_world\<lparr>clock := 3\<rparr>) = Inr (3, 3, 0)"
  using run_midnight run_clock_three by simp

end
